theory Spec2Isabelle
  imports Main "HOL-Library.Word"
begin

section \<open>JavaScript values used by the display engine\<close>

text \<open>
  A JavaScript string is a sequence of UTF-16 code units. The drums of
  \<^verbatim>\<open>split-flap.js\<close> hold one-unit strings, two of which (the arrows U+2191 and
  U+2193) lie outside ASCII, so a code unit is a 16-bit word. \<open>js\<close> embeds an ASCII
  literal.
\<close>

type_synonym jschar = "16 word"
type_synonym jsstring = "jschar list"

definition js :: "string \<Rightarrow> jsstring" where
  "js s = map of_char s"

definition blank :: jsstring where
  "blank = js '' ''"

text \<open>
  The exceptions the modelled code can raise: a \<open>TypeError\<close> when a method is called on
  \<^verbatim>\<open>undefined\<close> (a span without a drum), and the \<open>SyntaxError\<close> jQuery raises on a
  selector it cannot parse.
\<close>

datatype error = TypeError | SyntaxError

text \<open>\<^verbatim>\<open>Array.prototype.indexOf\<close>: the first index holding \<open>c\<close>, or \<open>-1\<close>.\<close>

fun indexOf_from :: "'a list \<Rightarrow> 'a \<Rightarrow> int \<Rightarrow> int" where
  "indexOf_from [] c k = - 1"
| "indexOf_from (v # vs) c k = (if v = c then k else indexOf_from vs c (k + 1))"

definition indexOf :: "'a list \<Rightarrow> 'a \<Rightarrow> int" where
  "indexOf vs c = indexOf_from vs c 0"

text \<open>An indexed read \<^verbatim>\<open>values[i]\<close>: \<open>None\<close> is \<^verbatim>\<open>undefined\<close>, read outside the array.\<close>

definition js_at :: "'a list \<Rightarrow> int \<Rightarrow> 'a option" where
  "js_at vs i = (if 0 \<le> i \<and> i < int (length vs) then Some (vs ! nat i) else None)"

subsection \<open>\<^verbatim>\<open>Array.prototype.rotate\<close>\<close>

text \<open>
  \<^verbatim>\<open>count >> 0\<close> is the conversion to a signed 32-bit integer; \<^verbatim>\<open>count % len\<close> is the
  remainder with the sign of the dividend, \<^verbatim>\<open>NaN\<close> (here \<open>None\<close>) for \<open>len = 0\<close>;
  \<^verbatim>\<open>splice(start, len)\<close> reads \<^verbatim>\<open>NaN\<close> as 0, counts a negative start from the end, and
  removes everything from the start on; \<^verbatim>\<open>unshift\<close> puts the removed part in front.
\<close>

definition to_int32 :: "int \<Rightarrow> int" where
  "to_int32 n = (n + 2 ^ 31) mod 2 ^ 32 - 2 ^ 31"

definition js_rem :: "int \<Rightarrow> int \<Rightarrow> int option" where
  "js_rem a b = (if b = 0 then None else Some (sgn a * (\<bar>a\<bar> mod \<bar>b\<bar>)))"

definition splice_start :: "int option \<Rightarrow> nat \<Rightarrow> nat" where
  "splice_start r len =
     (case r of
        None \<Rightarrow> 0
      | Some k \<Rightarrow> if k < 0 then nat (max (int len + k) 0) else min (nat k) len)"

definition rotate_js :: "'a list \<Rightarrow> int \<Rightarrow> 'a list" where
  "rotate_js this count =
     (let len = length this;
          start = splice_start (js_rem (to_int32 count) (int len)) len
      in drop start this @ take start this)"

section \<open>Drums\<close>

definition FullDrum :: "jsstring list" where
  "FullDrum =
     [js '' '', js ''A'', js ''B'', js ''C'', js ''D'', js ''E'', js ''F'', js ''G'',
      js ''H'', js ''I'', js ''J'', js ''K'', js ''L'', js ''M'', js ''N'', js ''O'',
      js ''P'', js ''Q'', js ''R'', js ''S'', js ''T'', js ''U'', js ''V'', js ''W'',
      js ''X'', js ''Y'', js ''Z'', js ''0'', js ''1'', js ''2'', js ''3'', js ''4'',
      js ''5'', js ''6'', js ''7'', js ''8'', js ''9'', js ''.'', js '','', js ''?'',
      js ''!'', js ''/'', [0x27], js ''+'', js ''-'', js '':'', js ''@'', js ''#'',
      [0x2191], [0x2193]]"

definition CharDrum :: "jsstring list" where
  "CharDrum =
     [js '' '', js ''A'', js ''B'', js ''C'', js ''D'', js ''E'', js ''F'', js ''G'',
      js ''H'', js ''I'', js ''J'', js ''K'', js ''L'', js ''M'', js ''N'', js ''O'',
      js ''P'', js ''Q'', js ''R'', js ''S'', js ''T'', js ''U'', js ''V'', js ''W'',
      js ''X'', js ''Y'', js ''Z'', js ''.'', js '','']"

definition NumDrum :: "jsstring list" where
  "NumDrum =
     [js '' '', js ''0'', js ''1'', js ''2'', js ''3'', js ''4'', js ''5'', js ''6'',
      js ''7'', js ''8'', js ''9'', js ''.'', js '','']"

definition ImageDrum :: "jsstring list" where
  "ImageDrum = []"

section \<open>Slots: \<^verbatim>\<open>sf.display.show\<close> and \<^verbatim>\<open>sf.display.change\<close>\<close>

text \<open>
  A slot is one \<^verbatim>\<open>span\<close> of the board: \<open>div_class\<close> is the \<^verbatim>\<open>className\<close> of the
  \<^verbatim>\<open>div\<close> around it, \<open>order\<close> is its \<^verbatim>\<open>data('order')\<close> (\<open>None\<close> before \<^verbatim>\<open>initRow\<close> has
  attached a drum), and \<open>flips\<close> lists, oldest first, the class names that calls of
  \<^verbatim>\<open>show\<close> have queued on it: each call queues one fade-out, class swap and fade-in on
  the span's effects queue, which runs in order, so the last entry is the class the
  span ends with. The duration of a fade is not part of the model.
\<close>

record slot =
  div_class :: jsstring
  order :: "jsstring list option"
  flips :: "jsstring list"

text \<open>
  The class \<^verbatim>\<open>show\<close> computes for \<open>i\<close> (\<open>None\<close> is \<^verbatim>\<open>undefined\<close>): the \<^verbatim>\<open>switch\<close> on
  the blank and on punctuation overrides the generic name, whatever \<open>isChar\<close> is.
\<close>

definition show_class :: "jsstring option \<Rightarrow> bool \<Rightarrow> jsstring" where
  "show_class i isChar =
     (if i = Some (js '' '') then js ''csp''
      else if i = Some (js ''.'') then js ''cper''
      else if i = Some (js '','') then js ''ccom''
      else if i = Some (js ''?'') then js ''cque''
      else if i = Some (js ''!'') then js ''cexc''
      else if i = Some (js ''/'') then js ''csla''
      else if i = Some [0x27] then js ''capo''
      else if i = Some (js ''+'') then js ''cplu''
      else if i = Some (js ''-'') then js ''cmin''
      else if i = Some (js '':'') then js ''ccol''
      else if i = Some (js ''@'') then js ''cat''
      else if i = Some (js ''#'') then js ''chsh''
      else if i = Some [0x2191] then js ''cup''
      else if i = Some [0x2193] then js ''cdn''
      else if i = Some (js ''%'') then js ''cpct''
      else if isChar then js ''c'' @ (case i of None \<Rightarrow> js ''undefined'' | Some t \<Rightarrow> t)
      else (case i of None \<Rightarrow> [] | Some t \<Rightarrow> t))"

definition show_js :: "slot \<Rightarrow> jsstring option \<Rightarrow> bool \<Rightarrow> slot" where
  "show_js container i isChar = container\<lparr>flips := flips container @ [show_class i isChar]\<rparr>"

text \<open>
  The container of \<^verbatim>\<open>change\<close> is a jQuery object, a list of spans: \<^verbatim>\<open>data('order')\<close>
  reads the first span (\<^verbatim>\<open>undefined\<close> for an empty set or a span with no drum, on which
  \<^verbatim>\<open>values.indexOf\<close> throws), \<^verbatim>\<open>show\<close> and \<^verbatim>\<open>data('order', v)\<close> act on every span.
\<close>

definition data_order :: "slot list \<Rightarrow> jsstring list option" where
  "data_order container = (case container of [] \<Rightarrow> None | e # _ \<Rightarrow> order e)"

function show_loop :: "int \<Rightarrow> int \<Rightarrow> jsstring list \<Rightarrow> bool \<Rightarrow> slot list \<Rightarrow> slot list" where
  "show_loop i index values isChar container =
     (if i < index
      then show_loop (i + 1) index values isChar
             (map (\<lambda>e. show_js e (js_at values (i + 1)) isChar) container)
      else container)"
  by pat_completeness auto
termination
  by (relation "measure (\<lambda>(i, index, values, isChar, container). nat (index - i))") auto

definition target_index :: "jsstring list \<Rightarrow> jsstring \<Rightarrow> int" where
  "target_index values c =
     (let index = indexOf values c
      in if index = - 1 then indexOf values blank else index)"

definition change :: "slot list \<Rightarrow> jsstring \<Rightarrow> bool \<Rightarrow> error + slot list" where
  "change container c isChar =
     (case data_order container of
        None \<Rightarrow> Inl TypeError
      | Some values \<Rightarrow>
          (let index = target_index values c;
               shown = show_loop 0 index values isChar container
           in Inr (map (\<lambda>e. e\<lparr>order := Some (rotate_js values index)\<rparr>) shown)))"

section \<open>Groups: \<^verbatim>\<open>sf.display.loadGroup\<close>\<close>

text \<open>
  Three things the browser does are parameters of the model. \<^verbatim>\<open>String.prototype.toUpperCase\<close>
  is fixed on strings of ASCII code units (the letters a to z move to A to Z, nothing
  else changes) and left to \<open>upper_other\<close> on every other string. jQuery's
  \<^verbatim>\<open>find(selector)\<close> is \<open>jq_find\<close>: the set of class-token lists the selector matches, or
  \<open>None\<close> when jQuery rejects the selector with a syntax error. The string of a number
  is fixed on the safe integers (below \<open>2 ^ 53\<close> in absolute value, where it is the
  decimal numeral) and left to \<open>number_other\<close> beyond them, where a JavaScript number is
  a rounded double and its string may be in exponent form.
\<close>

record browser =
  upper_other :: "jsstring \<Rightarrow> jsstring"
  jq_find :: "jsstring \<Rightarrow> (jsstring list \<Rightarrow> bool) option"
  number_other :: "int \<Rightarrow> jsstring"

definition upper_unit :: "jschar \<Rightarrow> jschar" where
  "upper_unit u = (if 0x61 \<le> u \<and> u \<le> 0x7A then u - 0x20 else u)"

definition toUpperCase :: "browser \<Rightarrow> jsstring \<Rightarrow> jsstring" where
  "toUpperCase br s = (if \<forall>u \<in> set s. u < 0x80 then map upper_unit s else upper_other br s)"

text \<open>\<^verbatim>\<open>input.split('')\<close>: one string per code unit.\<close>

definition split_units :: "jsstring \<Rightarrow> jsstring list" where
  "split_units s = map (\<lambda>u. [u]) s"

text \<open>
  A group is a \<^verbatim>\<open>.group\<close> element of a row: \<open>gclass\<close> is its class attribute split at
  white space, \<open>has_image\<close> says whether \<^verbatim>\<open>find('.image')\<close> is non-empty, \<open>lights\<close> are
  the class-token lists of the \<^verbatim>\<open>div\<close>s inside a status group, \<open>slots\<close> are its spans in
  document order (one span in each display \<^verbatim>\<open>div\<close>), and \<open>contents\<close> is its
  \<^verbatim>\<open>data('contents')\<close>.
\<close>

datatype jsval = JNull | JBool bool | JNum int | JStr jsstring

record group =
  gclass :: "jsstring list"
  has_image :: bool
  lights :: "jsstring list list"
  slots :: "slot list"
  contents :: "jsval option"

definition removeClass :: "jsstring \<Rightarrow> jsstring list \<Rightarrow> jsstring list" where
  "removeClass c cls = filter (\<lambda>t. t \<noteq> c) cls"

definition addClass :: "jsstring \<Rightarrow> jsstring list \<Rightarrow> jsstring list" where
  "addClass c cls = (if c \<in> set cls then cls else cls @ [c])"

text \<open>
  The padding loop of \<^verbatim>\<open>loadGroup\<close>. \<^verbatim>\<open>characters[i]\<close> is \<^verbatim>\<open>undefined\<close> exactly when
  \<open>i\<close> is not below the length; the loop starts at 0 and writes every index it finds
  empty, so a write is always at the index equal to the length, which appends.
\<close>

function pad_loop :: "nat \<Rightarrow> nat \<Rightarrow> jsstring list \<Rightarrow> jsstring list" where
  "pad_loop i strLen characters =
     (if i < strLen
      then pad_loop (Suc i) strLen
             (if i < length characters then characters else characters @ [js '' ''])
      else characters)"
  by pat_completeness auto
termination
  by (relation "measure (\<lambda>(i, strLen, characters). strLen - i)") auto

text \<open>
  The loop over \<^verbatim>\<open>characters\<close>: \<^verbatim>\<open>$(elements[i]).find('span')\<close> is the one span of display
  element \<open>i\<close>, and the empty jQuery object (on which \<^verbatim>\<open>change\<close> throws) when there is
  no such element.
\<close>

fun change_each :: "slot list \<Rightarrow> jsstring list \<Rightarrow> error + slot list" where
  "change_each elements [] = Inr elements"
| "change_each [] (c # cs) = Inl TypeError"
| "change_each (e # es) (c # cs) =
     (case change [e] c True of
        Inl err \<Rightarrow> Inl err
      | Inr r \<Rightarrow> (case change_each es cs of Inl err \<Rightarrow> Inl err | Inr rs \<Rightarrow> Inr (r @ rs)))"

definition group_characters :: "browser \<Rightarrow> jsstring \<Rightarrow> nat \<Rightarrow> jsstring list" where
  "group_characters br input strLen =
     take strLen (pad_loop 0 strLen (split_units (toUpperCase br input)))"

definition loadGroup :: "browser \<Rightarrow> jsstring \<Rightarrow> group \<Rightarrow> error + group" where
  "loadGroup br input target =
     (let strLen = length (slots target) in
      if js ''status'' \<in> set (gclass target) then
        (case jq_find br (js ''.s'' @ input) of
           None \<Rightarrow> Inl SyntaxError
         | Some found \<Rightarrow>
             Inr (target\<lparr>lights :=
                    map (\<lambda>d. if found d then addClass (js ''on'') d else d)
                      (map (removeClass (js ''on'')) (lights target))\<rparr>))
      else if has_image target then
        (case change (slots target) input False of
           Inl err \<Rightarrow> Inl err
         | Inr ss \<Rightarrow> Inr (target\<lparr>slots := ss\<rparr>))
      else
        (case change_each (slots target) (group_characters br input strLen) of
           Inl err \<Rightarrow> Inl err
         | Inr ss \<Rightarrow> Inr (target\<lparr>slots := ss\<rparr>)))"

section \<open>Rows: \<^verbatim>\<open>sf.display.loadRow\<close>, \<^verbatim>\<open>sf.board.clearRow\<close>, \<^verbatim>\<open>sf.display.initRow\<close>\<close>

text \<open>
  A record of the dataset is an object read from JSON: a map from property names to
  values. Numbers are integers here (the dataset's numbers are counts of minutes);
  nested objects, fractions and the members inherited from \<^verbatim>\<open>Object.prototype\<close> are
  outside the model.
\<close>

type_synonym item = "jsstring \<rightharpoonup> jsval"
type_synonym row = "group list"

definition truthy :: "jsval \<Rightarrow> bool" where
  "truthy v = (case v of JNull \<Rightarrow> False | JBool b \<Rightarrow> b | JNum n \<Rightarrow> n \<noteq> 0 | JStr t \<Rightarrow> t \<noteq> [])"

function decimal :: "nat \<Rightarrow> jsstring" where
  "decimal n = (if n < 10 then [of_nat (48 + n)] else decimal (n div 10) @ [of_nat (48 + n mod 10)])"
  by pat_completeness auto
termination
  by (relation "measure (\<lambda>n. n)") auto

text \<open>
  \<^verbatim>\<open>d.toString()\<close>; on \<^verbatim>\<open>null\<close> the method call throws. A safe integer prints as its
  decimal numeral, with a minus sign when it is negative.
\<close>

definition toString :: "browser \<Rightarrow> jsval \<Rightarrow> error + jsstring" where
  "toString br d =
     (case d of
        JNull \<Rightarrow> Inl TypeError
      | JBool b \<Rightarrow> Inr (if b then js ''true'' else js ''false'')
      | JNum n \<Rightarrow>
          Inr (if \<bar>n\<bar> < 2 ^ 53
               then (if n < 0 then js ''-'' @ decimal (nat (- n)) else decimal (nat n))
               else number_other br n)
      | JStr t \<Rightarrow> Inr t)"

text \<open>\<^verbatim>\<open>data[c]\<close>: an \<^verbatim>\<open>undefined\<close> key reads the property named \<^verbatim>\<open>undefined\<close>.\<close>

definition get_prop :: "item \<Rightarrow> jsstring option \<Rightarrow> jsval option" where
  "get_prop data c = data (case c of None \<Rightarrow> js ''undefined'' | Some k \<Rightarrow> k)"

text \<open>jQuery's \<^verbatim>\<open>each\<close>: the callback runs on every element in order; an exception ends it.\<close>

fun each :: "('a \<Rightarrow> error + 'a) \<Rightarrow> 'a list \<Rightarrow> error + 'a list" where
  "each f [] = Inr []"
| "each f (x # xs) =
     (case f x of
        Inl err \<Rightarrow> Inl err
      | Inr y \<Rightarrow> (case each f xs of Inl err \<Rightarrow> Inl err | Inr ys \<Rightarrow> Inr (y # ys)))"

text \<open>The callback of \<^verbatim>\<open>loadRow\<close> for one group.\<close>

definition loadRow_group :: "browser \<Rightarrow> item \<Rightarrow> group \<Rightarrow> error + group" where
  "loadRow_group br data g =
     (let c = js_at (gclass g) 1;
          d = (case get_prop data c of None \<Rightarrow> JStr [] | Some v \<Rightarrow> if truthy v then v else JStr [])
      in case toString br d of
           Inl err \<Rightarrow> Inl err
         | Inr text \<Rightarrow>
             (case loadGroup br text g of
                Inl err \<Rightarrow> Inl err
              | Inr g' \<Rightarrow> Inr (g'\<lparr>contents := Some d\<rparr>)))"

definition loadRow :: "browser \<Rightarrow> item \<Rightarrow> row \<Rightarrow> error + row" where
  "loadRow br data row = each (loadRow_group br data) row"

definition clearRow :: "browser \<Rightarrow> row \<Rightarrow> error + row" where
  "clearRow br row = each (loadGroup br (js '' '')) row"

text \<open>
  \<^verbatim>\<open>initRow\<close> gives every span a fresh drum, chosen by the class name of the \<^verbatim>\<open>div\<close>
  around it, and changes it to a space (with no third argument, so \<open>isChar\<close> is false).
\<close>

definition initSpan :: "slot \<Rightarrow> error + slot list" where
  "initSpan span =
     (let drum = (if div_class span = js ''number'' then NumDrum
                  else if div_class span = js ''character'' then CharDrum
                  else if div_class span = js ''image'' then ImageDrum
                  else FullDrum)
      in change [span\<lparr>order := Some drum\<rparr>] (js '' '') False)"

fun init_spans :: "slot list \<Rightarrow> error + slot list" where
  "init_spans [] = Inr []"
| "init_spans (span # spans) =
     (case initSpan span of
        Inl err \<Rightarrow> Inl err
      | Inr r \<Rightarrow> (case init_spans spans of Inl err \<Rightarrow> Inl err | Inr rs \<Rightarrow> Inr (r @ rs)))"

definition initRow :: "row \<Rightarrow> error + row" where
  "initRow row =
     each (\<lambda>g. case init_spans (slots g) of
                  Inl err \<Rightarrow> Inl err
                | Inr ss \<Rightarrow> Inr (g\<lparr>slots := ss\<rparr>)) row"

text \<open>\<^verbatim>\<open>sf.Board.render\<close>: \<open>numRows\<close> copies of the row template, each initialised.\<close>

definition render :: "nat \<Rightarrow> row \<Rightarrow> error + row list" where
  "render numRows template = each initRow (replicate numRows template)"

section \<open>The sequencer: \<^verbatim>\<open>sf.display.loadSequentially\<close>\<close>

text \<open>
  What a pass does besides changing the rows is kept as a trace: the two console lines
  (\<^verbatim>\<open>Row n: record\<close> and \<^verbatim>\<open>Row n: Empty\<close>, written just before the row is loaded or
  cleared), the \<^verbatim>\<open>sf:boardRendered\<close> event, and the refresh the pager schedules. The
  timers themselves are not modelled: a callback is one step, the steps of a pass follow
  one another, and one pass has ended before the pager starts the next (with the default
  options a pass takes 5 seconds of the 30 between pages).
\<close>

datatype effect = LogRow nat item | LogEmpty nat | BoardRendered | Refresh

type_synonym screen = "row list \<times> effect list"

text \<open>
  An action on \<^verbatim>\<open>rows[i]\<close>. Outside the board \<^verbatim>\<open>$(rows[i])\<close> is the empty jQuery object, in
  which \<^verbatim>\<open>find('.group')\<close> finds nothing, so nothing happens.
\<close>

definition at_row :: "nat \<Rightarrow> (row \<Rightarrow> error + row) \<Rightarrow> row list \<Rightarrow> error + row list" where
  "at_row i f rows =
     (if i < length rows
      then (case f (rows ! i) of Inl err \<Rightarrow> Inl err | Inr r \<Rightarrow> Inr (rows[i := r]))
      else Inr rows)"

text \<open>
  The body of \<^verbatim>\<open>loop\<close>, with \<open>n\<close> for \<^verbatim>\<open>rows.length\<close>. A record of the dataset is an
  object, hence truthy, so \<^verbatim>\<open>input[i]\<close> holds exactly when \<open>i\<close> is below the length of
  the input. \<open>Inl\<close> stands for an exception that nothing catches: the pass ends there.
\<close>

function seq_loop ::
  "browser \<Rightarrow> item list \<Rightarrow> nat \<Rightarrow> nat \<Rightarrow> row list \<Rightarrow> effect list \<Rightarrow> error + screen" where
  "seq_loop br input n i rows out =
     (case (if i < length input
            then at_row i (loadRow br (input ! i)) rows
            else at_row i (clearRow br) rows) of
        Inl err \<Rightarrow> Inl err
      | Inr rows' \<Rightarrow>
          (let out' = out @ [if i < length input then LogRow (i + 1) (input ! i)
                             else LogEmpty (i + 1)]
           in if Suc i < n then seq_loop br input n (Suc i) rows' out'
              else Inr (rows', out' @ [BoardRendered])))"
  by pat_completeness auto
termination
  by (relation "measure (\<lambda>(br, input, n, i, rows, out). n - i)") auto

definition loadSequentially :: "browser \<Rightarrow> item list \<Rightarrow> screen \<Rightarrow> error + screen" where
  "loadSequentially br input scr = seq_loop br input (length (fst scr)) 0 (fst scr) (snd scr)"

section \<open>The pager: \<^verbatim>\<open>sf.Items.update\<close>\<close>

text \<open>
  The options the pager reads: \<open>numRows\<close>, and \<open>maxResults\<close>, which may be missing.
  The numbers the code computes with can leave the integers (\<^verbatim>\<open>numResults / numRows\<close>
  with \<open>numRows = 0\<close>, a comparator's \<^verbatim>\<open>Infinity - Infinity\<close>), so a number is an integer,
  an infinity or \<^verbatim>\<open>NaN\<close>.
\<close>

record options =
  numRows :: nat
  maxResults :: "nat option"

datatype number = Num int | PosInf | NegInf | NaN

text \<open>\<^verbatim>\<open>Math.ceil(numResults / numRows)\<close>.\<close>

definition ceil_div :: "nat \<Rightarrow> nat \<Rightarrow> number" where
  "ceil_div a b =
     (if b = 0 then (if a = 0 then NaN else PosInf)
      else Num (int ((a + b - 1) div b)))"

text \<open>\<^verbatim>\<open>page < numPages\<close>.\<close>

fun less_number :: "nat \<Rightarrow> number \<Rightarrow> bool" where
  "less_number page (Num n) = (int page < n)"
| "less_number page PosInf = True"
| "less_number page NegInf = False"
| "less_number page NaN = False"

text \<open>\<^verbatim>\<open>results.slice(a, b)\<close> for \<open>a \<le> b\<close>.\<close>

definition slice_js :: "'a list \<Rightarrow> nat \<Rightarrow> nat \<Rightarrow> 'a list" where
  "slice_js xs a b = take (b - a) (drop a xs)"

text \<open>
  \<^verbatim>\<open>paginate\<close>, with the variables \<open>i\<close> and \<open>page\<close> it shares with \<^verbatim>\<open>update\<close>. It need not
  return: with \<open>numPages\<close> infinite it loads pages for ever, and the value is \<open>None\<close>.
\<close>

partial_function (option) paginate ::
  "browser \<Rightarrow> item list \<Rightarrow> nat \<Rightarrow> number \<Rightarrow> nat \<Rightarrow> nat \<Rightarrow> screen \<Rightarrow> (error + screen) option" where
  "paginate br results rows_n numPages i page scr =
     (case loadSequentially br (slice_js results i (i + rows_n)) scr of
        Inl err \<Rightarrow> Some (Inl err)
      | Inr scr' \<Rightarrow>
          if less_number (page + 1) numPages
          then paginate br results rows_n numPages (i + rows_n) (page + 1) scr'
          else Some (Inr (fst scr', snd scr' @ [Refresh])))"

text \<open>
  The success callback of \<^verbatim>\<open>update\<close> on the fetched list \<open>results\<close>, up to the refresh it
  schedules: one cycle of the pager. Nothing catches an exception of a pass: \<open>Inl\<close> is the
  first one, and the cycle of the model ends there. In the browser only the timer
  callback that threw ends, and the timers of the pager run on; what the page shows
  after an exception is outside the model.
\<close>

definition update :: "browser \<Rightarrow> options \<Rightarrow> item list \<Rightarrow> screen \<Rightarrow> (error + screen) option" where
  "update br opts results scr =
     (let max_results = (case maxResults opts of
                           None \<Rightarrow> numRows opts
                         | Some m \<Rightarrow> if m \<noteq> 0 then m else numRows opts);
          numResults = (if length results \<le> max_results then length results else max_results);
          numPages = ceil_div numResults (numRows opts)
      in case loadSequentially br (slice_js results 0 (0 + numRows opts)) scr of
           Inl err \<Rightarrow> Some (Inl err)
         | Inr scr' \<Rightarrow>
             if less_number 1 numPages
             then paginate br results (numRows opts) numPages (numRows opts) 1 scr'
             else Some (Inr (fst scr', snd scr' @ [Refresh])))"

section \<open>The data source: \<^verbatim>\<open>app.js\<close>\<close>

text \<open>
  What \<^verbatim>\<open>get_stop_times\<close> reads of the transit service's answer: for every stop time its
  departure time in seconds (\<open>None\<close> when there is none, or when \<^verbatim>\<open>Number\<close> makes no
  number of it), the route id and the destination name; for the stop its name. An answer
  that cannot be fetched or parsed is \<open>None\<close>: the function catches the exception and
  returns the empty list.
\<close>

record stop_time =
  departure :: "int option"
  route :: "jsstring option"
  destination :: "jsstring option"

record stops_response =
  stop_name :: "jsstring option"
  stopTimes :: "stop_time list option"

record arrival =
  route_id :: jsstring
  arrival_time :: jsval
  current_stop :: jsstring
  last_stop_name :: jsstring

record combined = arrival +
  service_status :: jsstring

text \<open>
  \<^verbatim>\<open>Math.floor((departureTs - Date.now() / 1000) / 60)\<close> with the clock in milliseconds.
  The quotient is a multiple of 1/60000, far coarser than the rounding of the two
  divisions, so the floor is that of the exact quotient.
\<close>

definition minutes_left :: "int \<Rightarrow> int \<Rightarrow> int" where
  "minutes_left now_ms departureTs = (departureTs * 1000 - now_ms) div 60000"

fun stop_times_loop :: "int \<Rightarrow> jsstring \<Rightarrow> stop_time list \<Rightarrow> arrival list" where
  "stop_times_loop now_ms stop_id [] = []"
| "stop_times_loop now_ms stop_id (st # sts) =
     (case departure st of
        None \<Rightarrow> stop_times_loop now_ms stop_id sts
      | Some departureTs \<Rightarrow>
          (let r = (case route st of None \<Rightarrow> [] | Some x \<Rightarrow> x);
               l = (case destination st of None \<Rightarrow> [] | Some x \<Rightarrow> x);
               t = minutes_left now_ms departureTs
           in if t > 0
              then \<lparr>route_id = r, arrival_time = JNum t, current_stop = stop_id,
                    last_stop_name = l\<rparr> # stop_times_loop now_ms stop_id sts
              else if t = 0
              then \<lparr>route_id = r, arrival_time = JStr (js ''0''), current_stop = stop_id,
                    last_stop_name = l\<rparr> # stop_times_loop now_ms stop_id sts
              else stop_times_loop now_ms stop_id sts))"

definition get_stop_times :: "int \<Rightarrow> jsstring \<Rightarrow> stops_response option \<Rightarrow> arrival list" where
  "get_stop_times now_ms station response =
     (case response of
        None \<Rightarrow> []
      | Some stop_times_data \<Rightarrow>
          (case stopTimes stop_times_data of
             None \<Rightarrow> []
           | Some sts \<Rightarrow>
               stop_times_loop now_ms
                 (case stop_name stop_times_data of
                    None \<Rightarrow> station
                  | Some nm \<Rightarrow> if nm \<noteq> [] then nm else station)
                 sts))"

text \<open>
  The comparator of \<^verbatim>\<open>fetchAndWrite\<close>: an arrival time that is not a number counts as
  \<^verbatim>\<open>Number.POSITIVE_INFINITY\<close>, and the result is the difference.
\<close>

definition number_or_infinity :: "jsval \<Rightarrow> number" where
  "number_or_infinity v = (case v of JNum n \<Rightarrow> Num n | _ \<Rightarrow> PosInf)"

fun minus_number :: "number \<Rightarrow> number \<Rightarrow> number" where
  "minus_number (Num a) (Num b) = Num (a - b)"
| "minus_number (Num a) PosInf = NegInf"
| "minus_number (Num a) NegInf = PosInf"
| "minus_number PosInf (Num b) = PosInf"
| "minus_number PosInf NegInf = PosInf"
| "minus_number NegInf (Num b) = NegInf"
| "minus_number NegInf PosInf = NegInf"
| "minus_number PosInf PosInf = NaN"
| "minus_number NegInf NegInf = NaN"
| "minus_number NaN b = NaN"
| "minus_number a NaN = NaN"

definition compare_arrivals :: "combined \<Rightarrow> combined \<Rightarrow> number" where
  "compare_arrivals a b =
     minus_number (number_or_infinity (arrival_time a)) (number_or_infinity (arrival_time b))"

text \<open>
  \<^verbatim>\<open>Array.prototype.sort\<close> with a comparator is stable and moves \<open>a\<close> behind \<open>b\<close> only
  when the comparator's result is positive (\<^verbatim>\<open>NaN\<close> counts as 0): an insertion sort.
\<close>

definition positive :: "number \<Rightarrow> bool" where
  "positive v = (case v of Num n \<Rightarrow> 0 < n | PosInf \<Rightarrow> True | NegInf \<Rightarrow> False | NaN \<Rightarrow> False)"

fun sort_insert :: "('a \<Rightarrow> 'a \<Rightarrow> number) \<Rightarrow> 'a \<Rightarrow> 'a list \<Rightarrow> 'a list" where
  "sort_insert cmp x [] = [x]"
| "sort_insert cmp x (y # ys) =
     (if positive (cmp x y) then y # sort_insert cmp x ys else x # y # ys)"

definition sort_js :: "('a \<Rightarrow> 'a \<Rightarrow> number) \<Rightarrow> 'a list \<Rightarrow> 'a list" where
  "sort_js cmp xs = foldr (sort_insert cmp) xs []"

text \<open>
  \<^verbatim>\<open>fetchAndWrite\<close>, from the answers it fetched to the list it stores in \<^verbatim>\<open>jsonData\<close>: the
  stop times of the station (with the clock when they were read), those of every transfer
  station, and the service status by route.
\<close>

record fetched =
  station_stops :: "int \<times> stops_response option"
  transfer_stops :: "(jsstring \<times> int \<times> stops_response option) list"
  statuses :: "jsstring \<rightharpoonup> jsstring"

definition fetchAndWrite :: "jsstring \<Rightarrow> fetched \<Rightarrow> combined list" where
  "fetchAndWrite station f =
     (let result = get_stop_times (fst (station_stops f)) station (snd (station_stops f))
                   @ concat (map (\<lambda>(t, now_ms, response). get_stop_times now_ms t response)
                              (transfer_stops f));
          combined_results =
            map (\<lambda>stop. \<lparr>route_id = route_id stop, arrival_time = arrival_time stop,
                          current_stop = current_stop stop,
                          last_stop_name = last_stop_name stop,
                          service_status =
                            (case statuses f (route_id stop) of
                               None \<Rightarrow> js ''Unknown''
                             | Some st \<Rightarrow> if st \<noteq> [] then st else js ''Unknown'')\<rparr>) result
      in sort_js compare_arrivals combined_results)"

text \<open>
  \<^verbatim>\<open>jsonData\<close> starts empty and is replaced by every run of \<^verbatim>\<open>fetchAndWrite\<close>; the handler
  of \<^verbatim>\<open>/api/arrivals\<close> serves its first 45 entries as records of the dataset.
\<close>

definition stored :: "(jsstring \<times> fetched) list \<Rightarrow> combined list" where
  "stored runs = foldl (\<lambda>jsonData (station, f). fetchAndWrite station f) [] runs"

record data_item =
  line :: jsstring
  stop :: jsstring
  terminal :: jsstring
  scheduled :: jsval
  remarks :: jsstring
  status :: jsstring

definition api_arrivals :: "combined list \<Rightarrow> data_item list" where
  "api_arrivals jsonData =
     map (\<lambda>entry. \<lparr>line = route_id entry, stop = current_stop entry,
                    terminal = last_stop_name entry, scheduled = arrival_time entry,
                    remarks = service_status entry,
                    status = (if service_status entry = js ''SERVICE CHANGE''
                                 \<or> service_status entry = js ''DELAYS''
                              then js ''B'' else js ''A'')\<rparr>)
       (take (min 45 (length jsonData)) jsonData)"

section \<open>Boards and browsers for the examples\<close>

text \<open>
  An idealised browser for some of the examples: it leaves a string with a unit outside
  ASCII as it is, and it accepts every selector, reading it as a dot and one class name.
  jQuery does reject some selectors; \<open>picky_browser\<close> below rejects those that hold a
  question mark. Both print a number beyond the safe integers as \<^verbatim>\<open>Infinity\<close>; no example
  has one. The theorems are stated for every browser; only examples use these two.
  Then a span that holds a drum, and a group of character or number spans with its field
  key as second class.
\<close>

definition plain_browser :: browser where
  "plain_browser =
     \<lparr>upper_other = (\<lambda>s. s), jq_find = (\<lambda>sel. Some (\<lambda>cls. drop 1 sel \<in> set cls)),
      number_other = (\<lambda>n. js ''Infinity'')\<rparr>"

definition drum_slot :: "jsstring \<Rightarrow> jsstring list \<Rightarrow> slot" where
  "drum_slot cls drum = \<lparr>div_class = cls, order = Some drum, flips = []\<rparr>"

definition text_group :: "jsstring \<Rightarrow> slot list \<Rightarrow> group" where
  "text_group key ss =
     \<lparr>gclass = [js ''group'', key], has_image = False, lights = [], slots = ss,
      contents = None\<rparr>"

section \<open>Invariants and closed forms used in the proofs\<close>

text \<open>
  The state the proofs need of a board. A stored alphabet fits when its characters are
  distinct, its length is an index \<^verbatim>\<open>count >> 0\<close> leaves alone, and it is empty or holds
  the blank: so are the four drums and all their rotations. A span is in order when it
  holds such an alphabet; a group is ready when its spans are, and an image group has a
  span. \<open>rest_slot\<close> says that a span is at rest: the blank is at index 0 of its
  alphabet, or the alphabet is empty (the image drum) and the span shows nothing;
  \<open>on_blank\<close> below is the first case alone.
\<close>

definition drum_fit :: "jsstring list \<Rightarrow> bool" where
  "drum_fit vs = (distinct vs \<and> length vs < 2 ^ 31 \<and> (vs = [] \<or> blank \<in> set vs))"

definition slot_ok :: "slot \<Rightarrow> bool" where
  "slot_ok e = (case order e of None \<Rightarrow> False | Some vs \<Rightarrow> drum_fit vs)"

definition group_ready :: "group \<Rightarrow> bool" where
  "group_ready g = ((\<forall>e \<in> set (slots g). slot_ok e) \<and> (has_image g \<longrightarrow> slots g \<noteq> []))"

definition rest_slot :: "slot \<Rightarrow> bool" where
  "rest_slot e = (case order e of None \<Rightarrow> False | Some vs \<Rightarrow> vs = [] \<or> vs ! 0 = blank)"

text \<open>What a span and a group hold, the history of the flips apart.\<close>

definition face_slot :: "slot \<Rightarrow> slot" where
  "face_slot e = e\<lparr>flips := []\<rparr>"

definition face :: "group \<Rightarrow> group" where
  "face g = g\<lparr>slots := map face_slot (slots g)\<rparr>"

text \<open>
  Closed forms: the alphabet \<^verbatim>\<open>change\<close> stores, the span it leaves, the lights of a status
  group after \<^verbatim>\<open>loadGroup\<close>, and the value \<^verbatim>\<open>d\<close> that \<^verbatim>\<open>loadRow\<close> loads into a group.
\<close>

definition turn :: "jsstring list \<Rightarrow> jsstring \<Rightarrow> jsstring list" where
  "turn vs c = rotate_js vs (target_index vs c)"

definition set_turned :: "jsstring list \<Rightarrow> jsstring \<Rightarrow> bool \<Rightarrow> slot \<Rightarrow> slot" where
  "set_turned vs c isChar e =
     e\<lparr>flips := flips e @
            map (\<lambda>k. show_class (Some (vs ! k)) isChar) [1 ..< Suc (nat (target_index vs c))],
       order := Some (turn vs c)\<rparr>"

definition turned :: "slot \<Rightarrow> jsstring \<Rightarrow> bool \<Rightarrow> slot" where
  "turned e c isChar = (case order e of None \<Rightarrow> e | Some vs \<Rightarrow> set_turned vs c isChar e)"

definition relight :: "(jsstring list \<Rightarrow> bool) \<Rightarrow> jsstring list list \<Rightarrow> jsstring list list" where
  "relight found ls =
     map (\<lambda>d. if found d then addClass (js ''on'') d else d) (map (removeClass (js ''on'')) ls)"

definition field_value :: "item \<Rightarrow> group \<Rightarrow> jsval" where
  "field_value data g =
     (case get_prop data (js_at (gclass g) 1) of
        None \<Rightarrow> JStr []
      | Some v \<Rightarrow> if truthy v then v else JStr [])"

text \<open>A row of one two-digit number group, and a record with one field.\<close>

definition sample_row :: row where
  "sample_row =
     [text_group (js ''scheduled'')
        [drum_slot (js ''number'') NumDrum, drum_slot (js ''number'') NumDrum]]"

definition sample_item :: "int \<Rightarrow> item" where
  "sample_item n = [js ''scheduled'' \<mapsto> JNum n]"

text \<open>
  A row that shows 42; the action of the sequencer on row \<open>i\<close> and the console line it
  writes there.
\<close>

definition busy_row :: row where
  "busy_row =
     [text_group (js ''scheduled'')
        [drum_slot (js ''number'') (rotate 5 NumDrum), drum_slot (js ''number'') (rotate 3 NumDrum)]]"

definition row_action :: "browser \<Rightarrow> item list \<Rightarrow> nat \<Rightarrow> row \<Rightarrow> error + row" where
  "row_action br input i = (if i < length input then loadRow br (input ! i) else clearRow br)"

definition pass_line :: "item list \<Rightarrow> nat \<Rightarrow> effect" where
  "pass_line input i = (if i < length input then LogRow (i + 1) (input ! i) else LogEmpty (i + 1))"

text \<open>
  Loading a list of pages one after the other, and the options of the spec's example.
\<close>

fun run_pages :: "browser \<Rightarrow> item list list \<Rightarrow> screen \<Rightarrow> error + screen" where
  "run_pages br [] scr = Inr scr"
| "run_pages br (p # ps) scr =
     (case loadSequentially br p scr of Inl err \<Rightarrow> Inl err | Inr scr' \<Rightarrow> run_pages br ps scr')"

definition sample_options :: options where
  "sample_options = \<lparr>numRows = 2, maxResults = Some 3\<rparr>"

text \<open>
  The order of the comparator of \<^verbatim>\<open>fetchAndWrite\<close> on arrival times (a number is below
  every value that is not a number), the values \<^verbatim>\<open>get_stop_times\<close> produces, the minutes
  the spec reads a value as (the zero marker is no wait at all), and an answer of the
  transit service with a train leaving in 30 seconds and one leaving in 330.
\<close>

definition time_le :: "jsval \<Rightarrow> jsval \<Rightarrow> bool" where
  "time_le u v =
     (case v of
        JNum y \<Rightarrow> (case u of JNum x \<Rightarrow> x \<le> y | _ \<Rightarrow> False)
      | _ \<Rightarrow> True)"

definition minutes_value :: "jsval \<Rightarrow> bool" where
  "minutes_value v = (case v of JNum n \<Rightarrow> 0 < n | JStr t \<Rightarrow> t = js ''0'' | _ \<Rightarrow> False)"

definition minutes_claimed :: "jsval \<Rightarrow> int" where
  "minutes_claimed v = (case v of JNum n \<Rightarrow> n | _ \<Rightarrow> 0)"

definition sample_runs :: "(jsstring \<times> fetched) list" where
  "sample_runs =
     [(js ''A44'',
       \<lparr>station_stops =
          (0, Some \<lparr>stop_name = Some (js ''Canal St''),
                    stopTimes = Some [\<lparr>departure = Some 30, route = Some (js ''A''),
                                       destination = Some (js ''Inwood'')\<rparr>,
                                      \<lparr>departure = Some 330, route = Some (js ''C''),
                                       destination = Some (js ''Euclid'')\<rparr>]\<rparr>),
        transfer_stops = [],
        statuses = Map.empty\<rparr>)]"

text \<open>
  A browser nearer to jQuery: it rejects every selector that holds a question mark (no
  class selector does), and reads any other as a dot and the class name that runs up to
  the first space. A status group with the lights of the two states of the dataset, the
  second one lit; a row with a number group showing 42 and that status group; a record
  with the two fields of such a row.
\<close>

definition picky_browser :: browser where
  "picky_browser =
     \<lparr>upper_other = (\<lambda>s. s),
      jq_find = (\<lambda>sel. if 0x3F \<in> set sel then None
                        else Some (\<lambda>cls. takeWhile (\<lambda>u. u \<noteq> 0x20) (drop 1 sel) \<in> set cls)),
      number_other = (\<lambda>n. js ''Infinity'')\<rparr>"

definition status_group :: group where
  "status_group =
     \<lparr>gclass = [js ''group'', js ''status''], has_image = False,
      lights = [[js ''sA''], [js ''sB'', js ''on'']], slots = [], contents = None\<rparr>"





text \<open>A span is on the blank when index 0 of its alphabet, the character on display, is the blank.\<close>

definition on_blank :: "slot \<Rightarrow> bool" where
  "on_blank e = (case order e of None \<Rightarrow> False | Some vs \<Rightarrow> js_at vs 0 = Some blank)"

text \<open>An image group with the given spans.\<close>

definition image_group :: "slot list \<Rightarrow> group" where
  "image_group ss =
     \<lparr>gclass = [js ''group'', js ''logo''], has_image = True, lights = [], slots = ss,
      contents = None\<rparr>"

text \<open>
  An answer of the transit service with a train leaving in 30 seconds followed by 45
  trains leaving in 330.
\<close>

definition crowded_runs :: "(jsstring \<times> fetched) list" where
  "crowded_runs =
     [(js ''A44'',
       \<lparr>station_stops =
          (0, Some \<lparr>stop_name = Some (js ''Canal St''),
                    stopTimes = Some (\<lparr>departure = Some 30, route = Some (js ''A''),
                                        destination = Some (js ''Inwood'')\<rparr>
                                      # replicate 45 \<lparr>departure = Some 330, route = Some (js ''C''),
                                                      destination = Some (js ''Euclid'')\<rparr>)\<rparr>),
        transfer_stops = [],
        statuses = Map.empty\<rparr>)]"

section \<open>Properties of the rotation\<close>

declare show_loop.simps [simp del]
declare pad_loop.simps [simp del]

lemma indexOf_from_notin: "c \<notin> set vs \<Longrightarrow> indexOf_from vs c k = - 1"
  by (induction vs arbitrary: k) auto

lemma indexOf_from_in:
  "c \<in> set vs \<Longrightarrow> \<exists>n. indexOf_from vs c k = k + int n \<and> n < length vs \<and> vs ! n = c
     \<and> c \<notin> set (take n vs)"
proof (induction vs arbitrary: k)
  case Nil
  then show ?case by simp
next
  case (Cons v vs)
  show ?case
  proof (cases "v = c")
    case True
    then show ?thesis by (intro exI [of _ 0]) simp
  next
    case False
    with Cons.prems have in_vs: "c \<in> set vs" by simp
    from Cons.IH [OF in_vs, of "k + 1"] obtain n where
      n: "indexOf_from vs c (k + 1) = k + 1 + int n" "n < length vs" "vs ! n = c"
         "c \<notin> set (take n vs)" by blast
    show ?thesis using False n by (intro exI [of _ "Suc n"]) simp
  qed
qed

lemma indexOf_notin: "c \<notin> set vs \<Longrightarrow> indexOf vs c = - 1"
  by (simp add: indexOf_def indexOf_from_notin)

lemma indexOf_in:
  assumes "c \<in> set vs"
  shows "0 \<le> indexOf vs c" and "indexOf vs c < int (length vs)"
    and "vs ! nat (indexOf vs c) = c" and "c \<notin> set (take (nat (indexOf vs c)) vs)"
  using indexOf_from_in [OF assms, of 0] by (auto simp: indexOf_def)

lemma show_loop_closed:
  "0 \<le> i \<Longrightarrow> show_loop i index values isChar container =
     map (\<lambda>e. e\<lparr>flips := flips e @
           map (\<lambda>k. show_class (js_at values (int k)) isChar) [Suc (nat i) ..< Suc (nat index)]\<rparr>)
       container"
proof (induction i index "values" isChar container rule: show_loop.induct)
  case (1 i index vs isChar container)
  show ?case
  proof (cases "i < index")
    case True
    with "1.prems" have r: "[Suc (nat i) ..< Suc (nat index)] = Suc (nat i) # [Suc (nat (i + 1)) ..< Suc (nat index)]"
    proof -
      from True "1.prems" have "Suc (nat i) < Suc (nat index)" by linarith
      then have "[Suc (nat i) ..< Suc (nat index)] = Suc (nat i) # [Suc (Suc (nat i)) ..< Suc (nat index)]"
        by (rule upt_conv_Cons)
      moreover from "1.prems" have "nat (i + 1) = Suc (nat i)" by linarith
      ultimately show ?thesis by simp
    qed
    have "show_loop i index vs isChar container =
        show_loop (i + 1) index vs isChar (map (\<lambda>e. show_js e (js_at vs (i + 1)) isChar) container)"
      using True by (subst show_loop.simps) simp
    also have "\<dots> = map (\<lambda>e. e\<lparr>flips := flips e @
           map (\<lambda>k. show_class (js_at vs (int k)) isChar) [Suc (nat (i + 1)) ..< Suc (nat index)]\<rparr>)
       (map (\<lambda>e. show_js e (js_at vs (i + 1)) isChar) container)"
      using "1.IH" [OF True] "1.prems" by (simp del: upt_Suc)
    finally show ?thesis using "1.prems"
      by (simp add: r show_js_def o_def add.commute del: upt_Suc)
  next
    case False
    then have "[Suc (nat i) ..< Suc (nat index)] = []" using "1.prems" by simp
    then show ?thesis using False by (subst show_loop.simps) simp
  qed
qed

lemma rotate_js_left:
  assumes "0 \<le> t" "t < int (length xs)" "length xs < 2 ^ 31"
  shows "rotate_js xs t = rotate (nat t) xs"
proof -
  have t32: "to_int32 t = t" using assms by (simp add: to_int32_def)
  have len: "int (length xs) \<noteq> 0" using assms by auto
  have rem: "js_rem t (int (length xs)) = Some t"
    using assms len by (cases "t = 0") (simp_all add: js_rem_def)
  have st: "splice_start (Some t) (length xs) = nat t"
    using assms by (simp add: splice_start_def)
  have "nat t mod length xs = nat t" using assms by simp
  then have "rotate (nat t) xs = drop (nat t) xs @ take (nat t) xs"
    by (metis rotate_drop_take)
  then show ?thesis by (simp add: rotate_js_def t32 rem st Let_def)
qed

lemma rotate_js_empty: "rotate_js [] k = []"
  by (simp add: rotate_js_def)


lemma js_at_in: "k < length vs \<Longrightarrow> js_at vs (int k) = Some (vs ! k)"
  by (simp add: js_at_def)

lemma target_index_bounds: "target_index vs c < int (length vs) \<and> - 1 \<le> target_index vs c"
proof -
  have b: "indexOf vs x < int (length vs) \<and> - 1 \<le> indexOf vs x" for x
  proof (cases "x \<in> set vs")
    case True
    then show ?thesis using indexOf_in(1,2) [OF True] by simp
  next
    case False
    then show ?thesis by (simp add: indexOf_notin)
  qed
  show ?thesis using b [of c] b [of blank] by (simp add: target_index_def Let_def)
qed

lemma target_index_found: "c \<in> set vs \<Longrightarrow> target_index vs c = indexOf vs c"
  using indexOf_in(1) [of c vs] by (auto simp: target_index_def Let_def)

lemma target_index_fallback: "c \<notin> set vs \<Longrightarrow> target_index vs c = indexOf vs blank"
  by (simp add: target_index_def Let_def indexOf_notin)

lemma steps_in_range:
  assumes "t < int (length vs)"
  shows "map (\<lambda>k. show_class (js_at vs (int k)) isChar) [Suc 0 ..< Suc (nat t)]
       = map (\<lambda>k. show_class (Some (vs ! k)) isChar) [Suc 0 ..< Suc (nat t)]"
proof (rule map_cong [OF refl])
  fix k assume "k \<in> set [Suc 0 ..< Suc (nat t)]"
  then have "k < length vs" using assms by auto
  then show "show_class (js_at vs (int k)) isChar = show_class (Some (vs ! k)) isChar"
    by (simp add: js_at_in)
qed

lemma change_closed:
  assumes "data_order container = Some vs"
  shows "change container c isChar =
     Inr (map (\<lambda>e. e\<lparr>flips := flips e @
                  map (\<lambda>k. show_class (Some (vs ! k)) isChar) [1 ..< Suc (nat (target_index vs c))],
                order := Some (rotate_js vs (target_index vs c))\<rparr>) container)"
proof -
  have "show_loop 0 (target_index vs c) vs isChar container =
      map (\<lambda>e. e\<lparr>flips := flips e @
           map (\<lambda>k. show_class (Some (vs ! k)) isChar) [Suc 0 ..< Suc (nat (target_index vs c))]\<rparr>)
       container"
    using show_loop_closed [of 0 "target_index vs c" vs isChar container]
      steps_in_range [of "target_index vs c" vs isChar] target_index_bounds [of vs c]
    by simp
  then show ?thesis using assms by (simp add: change_def Let_def o_def)
qed

lemma rotate_js_target:
  assumes "0 \<le> target_index vs c" "length vs < 2 ^ 31"
  shows "rotate_js vs (target_index vs c) = rotate (nat (target_index vs c)) vs"
  using rotate_js_left [of "target_index vs c" vs] target_index_bounds [of vs c] assms by simp

lemma hd_rotate_nth: "n < length xs \<Longrightarrow> rotate n xs ! 0 = xs ! n"
  by (simp add: rotate_drop_take nth_append)

lemma target_index_resolved:
  assumes "c \<in> set vs \<or> blank \<in> set vs"
  shows "0 \<le> target_index vs c" and "vs ! nat (target_index vs c) = (if c \<in> set vs then c else blank)"
proof -
  show "0 \<le> target_index vs c"
    using assms indexOf_in(1) [of c vs] indexOf_in(1) [of blank vs]
    by (cases "c \<in> set vs") (simp_all add: target_index_found target_index_fallback)
  show "vs ! nat (target_index vs c) = (if c \<in> set vs then c else blank)"
    using assms indexOf_in(3) [of c vs] indexOf_in(3) [of blank vs]
    by (cases "c \<in> set vs") (simp_all add: target_index_found target_index_fallback)
qed

lemma rotate_js_settles:
  assumes "c \<in> set vs \<or> blank \<in> set vs" "length vs < 2 ^ 31"
  shows "rotate_js vs (target_index vs c) \<noteq> []"
    and "rotate_js vs (target_index vs c) ! 0 = (if c \<in> set vs then c else blank)"
proof -
  let ?t = "target_index vs c"
  have t: "0 \<le> ?t" "nat ?t < length vs"
    using target_index_resolved(1) [OF assms(1)] target_index_bounds [of vs c] by auto
  have r: "rotate_js vs ?t = rotate (nat ?t) vs" using rotate_js_target [OF t(1) assms(2)] .
  from t(2) have "vs \<noteq> []" by auto
  then show "rotate_js vs ?t \<noteq> []" by (simp add: r)
  show "rotate_js vs ?t ! 0 = (if c \<in> set vs then c else blank)"
    using hd_rotate_nth [OF t(2)] target_index_resolved(2) [OF assms(1)] by (simp add: r)
qed

lemma show_class_blank: "show_class (Some blank) isChar = js ''csp''"
  by (simp add: show_class_def blank_def)

lemma pad_loop_closed:
  "i \<le> length cs \<Longrightarrow> pad_loop i n cs = cs @ replicate (n - length cs) (js '' '')"
proof (induction i n cs rule: pad_loop.induct)
  case (1 i strLen characters)
  show ?case
  proof (cases "i < strLen")
    case True
    show ?thesis
    proof (cases "i < length characters")
      case True
      with \<open>i < strLen\<close> "1.IH" [OF \<open>i < strLen\<close>] show ?thesis
        by (subst pad_loop.simps) simp
    next
      case False
      with "1.prems" have eq: "i = length characters" by simp
      with \<open>i < strLen\<close> have "strLen - length characters = Suc (strLen - Suc (length characters))"
        by simp
      with \<open>i < strLen\<close> "1.IH" [OF \<open>i < strLen\<close>] eq show ?thesis
        by (subst pad_loop.simps) (simp add: replicate_app_Cons_same)
    qed
  next
    case False
    with "1.prems" show ?thesis by (subst pad_loop.simps) simp
  qed
qed

lemma group_characters_closed:
  "group_characters br s W =
     take W (split_units (toUpperCase br s)) @ replicate (W - length (toUpperCase br s)) (js '' '')"
  by (simp add: group_characters_def pad_loop_closed split_units_def)

lemma length_group_characters: "length (group_characters br s W) = W"
  by (simp add: group_characters_closed split_units_def)

lemma change_single:
  assumes "order e = Some vs"
  shows "change [e] c isChar =
     Inr [e\<lparr>flips := flips e @
               map (\<lambda>k. show_class (Some (vs ! k)) isChar) [1 ..< Suc (nat (target_index vs c))],
            order := Some (rotate_js vs (target_index vs c))\<rparr>]"
  using change_closed [of "[e]" vs c isChar] assms by (simp add: data_order_def)

lemma change_each_ok:
  assumes "length cs = length es" "\<forall>e \<in> set es. order e \<noteq> None"
  shows "\<exists>ss. change_each es cs = Inr ss \<and> length ss = length es
           \<and> (\<forall>j < length es. change [es ! j] (cs ! j) True = Inr [ss ! j])"
  using assms
proof (induction es arbitrary: cs)
  case Nil
  then show ?case by simp
next
  case (Cons e es)
  from Cons.prems(1) obtain c cs' where cs: "cs = c # cs'" "length cs' = length es"
    by (cases cs) auto
  from Cons.prems(2) obtain vs where vs: "order e = Some vs" by auto
  from Cons.IH [OF cs(2)] Cons.prems(2) obtain ss where
    ss: "change_each es cs' = Inr ss" "length ss = length es"
        "\<forall>j < length es. change [es ! j] (cs' ! j) True = Inr [ss ! j]" by auto
  let ?e' = "e\<lparr>flips := flips e @
               map (\<lambda>k. show_class (Some (vs ! k)) True) [1 ..< Suc (nat (target_index vs c))],
            order := Some (rotate_js vs (target_index vs c))\<rparr>"
  have one: "change [e] c True = Inr [?e']" using change_single [OF vs] .
  have "change_each (e # es) cs = Inr (?e' # ss)" using one ss(1) cs(1) by simp
  moreover have "\<forall>j < length (e # es). change [(e # es) ! j] (cs ! j) True = Inr [(?e' # ss) ! j]"
    using one ss(3) cs(1) by (auto simp: nth_Cons')
  ultimately show ?case using ss(2) by (intro exI [of _ "?e' # ss"]) simp
qed

section \<open>The claims about drums and rotation\<close>

text \<open>
  Claim C7, as amended. The full, character and numeric drums each hold exactly one blank,
  at index 0, where it is the default character and the fallback of \<open>target_index\<close>.
  The image drum is empty in this file (plugins override it), so it holds no blank.
\<close>

theorem drums_hold_one_blank:
  "count_list FullDrum blank = 1 \<and> FullDrum ! 0 = blank
   \<and> count_list CharDrum blank = 1 \<and> CharDrum ! 0 = blank
   \<and> count_list NumDrum blank = 1 \<and> NumDrum ! 0 = blank
   \<and> ImageDrum = [] \<and> count_list ImageDrum blank = 0"
  by (simp add: FullDrum_def CharDrum_def NumDrum_def ImageDrum_def blank_def js_def)

text \<open>
  Claim C7 as stated fails on the image drum: it does not hold exactly one blank.
\<close>

theorem image_drum_blank_counterexample: "\<not> (count_list ImageDrum blank = 1)"
  by (simp add: ImageDrum_def)

text \<open>
  Claim C1. Let \<open>vs\<close> be the stored alphabet of the slot (index 0 is the character on
  display) and \<open>target\<close> the index \<^verbatim>\<open>change\<close> resolves \<open>c\<close> to. Then \<^verbatim>\<open>change\<close> returns,
  and it queues exactly \<open>target\<close> calls of \<^verbatim>\<open>show\<close> on every span of the container: step
  \<open>k\<close> shows the character at position \<open>k\<close> of the alphabet, for \<open>k\<close> from 1 to
  \<open>target\<close>, so the last one shows \<open>c\<close> when \<open>c\<close> is in the alphabet. With
  \<open>target = 0\<close> (the character on display, or an unknown character while the blank is on
  display) nothing is queued.
\<close>

theorem change_performs_target_steps:
  assumes "data_order container = Some vs" and "target_index vs c = target"
  shows "\<exists>shown. change container c isChar = Inr shown
           \<and> length shown = length container
           \<and> (\<forall>j < length container.
                 flips (shown ! j) = flips (container ! j)
                    @ map (\<lambda>k. show_class (Some (vs ! k)) isChar) [1 ..< Suc (nat target)]
               \<and> length (flips (shown ! j)) = length (flips (container ! j)) + nat target)
           \<and> (c \<in> set vs \<longrightarrow> 0 \<le> target \<and> vs ! nat target = c)
           \<and> (target = 0 \<longrightarrow> map flips shown = map flips container)"
proof -
  let ?shown = "map (\<lambda>e. e\<lparr>flips := flips e @
                  map (\<lambda>k. show_class (Some (vs ! k)) isChar) [1 ..< Suc (nat target)],
                order := Some (rotate_js vs target)\<rparr>) container"
  have c: "change container c isChar = Inr ?shown"
    using change_closed [OF assms(1), of c isChar] assms(2) by simp
  have found: "c \<in> set vs \<longrightarrow> 0 \<le> target \<and> vs ! nat target = c"
    using assms(2) indexOf_in(1,3) [of c vs] target_index_found [of c vs] by auto
  have zero: "target = 0 \<longrightarrow> map flips ?shown = map flips container"
    by (simp add: o_def)
  have each: "\<forall>j < length container.
                 flips (?shown ! j) = flips (container ! j)
                    @ map (\<lambda>k. show_class (Some (vs ! k)) isChar) [1 ..< Suc (nat target)]
               \<and> length (flips (?shown ! j)) = length (flips (container ! j)) + nat target"
    by simp
  show ?thesis
    using c found zero each by (intro exI [of _ ?shown]) simp
qed

theorem change_performs_target_steps_witness:
  "data_order [\<lparr>div_class = js ''number'', order = Some NumDrum, flips = []\<rparr>] = Some NumDrum
   \<and> target_index NumDrum (js ''2'') = 3
   \<and> (\<exists>shown. change [\<lparr>div_class = js ''number'', order = Some NumDrum, flips = []\<rparr>]
                   (js ''2'') True = Inr shown
          \<and> map flips shown = [[js ''c0'', js ''c1'', js ''c2'']])"
proof -
  let ?e = "\<lparr>div_class = js ''number'', order = Some NumDrum, flips = []\<rparr>"
  have h1: "data_order [?e] = Some NumDrum" by (simp add: data_order_def)
  have h2: "target_index NumDrum (js ''2'') = 3"
    by (simp add: target_index_def indexOf_def NumDrum_def js_def blank_def)
  have steps: "map (\<lambda>k. show_class (Some (NumDrum ! k)) True) [1 ..< Suc (nat 3)]
                 = [js ''c0'', js ''c1'', js ''c2'']"
    by code_simp
  from change_performs_target_steps [OF h1 h2, of True]
  obtain shown where s: "change [?e] (js ''2'') True = Inr shown" "length shown = 1"
    "flips (shown ! 0) = map (\<lambda>k. show_class (Some (NumDrum ! k)) True) [1 ..< Suc (nat 3)]"
    by auto
  from s(2) obtain x where x: "shown = [x]" by (cases shown) auto
  with s(3) steps have m: "map flips shown = [[js ''c0'', js ''c1'', js ''c2'']]" by simp
  show ?thesis
  proof (intro conjI exI)
    show "data_order [?e] = Some NumDrum" by (fact h1)
    show "target_index NumDrum (js ''2'') = 3" by (fact h2)
    show "change [?e] (js ''2'') True = Inr shown" by (fact s(1))
    show "map flips shown = [[js ''c0'', js ''c1'', js ''c2'']]" by (fact m)
  qed
qed

section \<open>The claims about groups\<close>

lemma loadGroup_text:
  assumes "js ''status'' \<notin> set (gclass g)" "\<not> has_image g" "\<forall>e \<in> set (slots g). order e \<noteq> None"
  shows "\<exists>ss. loadGroup br s g = Inr (g\<lparr>slots := ss\<rparr>) \<and> length ss = length (slots g)
           \<and> (\<forall>j < length (slots g).
                 change [slots g ! j] (group_characters br s (length (slots g)) ! j) True = Inr [ss ! j])"
proof -
  from change_each_ok [OF length_group_characters assms(3), of br s]
  obtain ss where ss: "change_each (slots g) (group_characters br s (length (slots g))) = Inr ss"
    "length ss = length (slots g)"
    "\<forall>j < length (slots g).
        change [slots g ! j] (group_characters br s (length (slots g)) ! j) True = Inr [ss ! j]"
    by blast
  have "loadGroup br s g = Inr (g\<lparr>slots := ss\<rparr>)"
    using assms(1,2) ss(1) by (simp add: loadGroup_def Let_def)
  with ss(2,3) show ?thesis by blast
qed

lemma upper_B: "toUpperCase br (js ''B'') = js ''B''"
  by (simp add: toUpperCase_def js_def upper_unit_def)

lemma upper_HELLO: "toUpperCase br (js ''HELLO'') = js ''HELLO''"
  by (simp add: toUpperCase_def js_def upper_unit_def)

text \<open>
  Claim C5. A group that is neither a status nor an image group, with \<open>W\<close> spans that
  all hold a drum, is loaded with exactly \<open>W\<close> characters: the code units of the
  upper-cased input, cut after the first \<open>W\<close> and padded on the right with blanks, and
  span \<open>j\<close> is changed to character \<open>j\<close>. For \<open>W = 5\<close> the input B gives B and four
  blanks; for \<open>W = 3\<close> the input HELLO gives H, E, L.
\<close>

theorem loadGroup_pads_and_truncates:
  assumes "js ''status'' \<notin> set (gclass g)" and "\<not> has_image g"
      and "\<forall>e \<in> set (slots g). order e \<noteq> None" and "W = length (slots g)"
  shows "group_characters br s W =
           take W (split_units (toUpperCase br s)) @ replicate (W - length (toUpperCase br s)) (js '' '')
       \<and> length (group_characters br s W) = W
       \<and> (\<exists>ss. loadGroup br s g = Inr (g\<lparr>slots := ss\<rparr>) \<and> length ss = W
              \<and> (\<forall>j < W. change [slots g ! j] (group_characters br s W ! j) True = Inr [ss ! j]))
       \<and> group_characters br (js ''B'') 5 = [js ''B'', js '' '', js '' '', js '' '', js '' '']
       \<and> group_characters br (js ''HELLO'') 3 = [js ''H'', js ''E'', js ''L'']"
proof (intro conjI)
  show "group_characters br s W =
           take W (split_units (toUpperCase br s)) @ replicate (W - length (toUpperCase br s)) (js '' '')"
    by (rule group_characters_closed)
  show "length (group_characters br s W) = W" by (rule length_group_characters)
  show "\<exists>ss. loadGroup br s g = Inr (g\<lparr>slots := ss\<rparr>) \<and> length ss = W
              \<and> (\<forall>j < W. change [slots g ! j] (group_characters br s W ! j) True = Inr [ss ! j])"
    using loadGroup_text [OF assms(1,2,3), of br s] assms(4) by simp
  show "group_characters br (js ''B'') 5 = [js ''B'', js '' '', js '' '', js '' '', js '' '']"
    by (simp add: group_characters_closed upper_B) (simp add: split_units_def js_def numeral_eq_Suc)
  show "group_characters br (js ''HELLO'') 3 = [js ''H'', js ''E'', js ''L'']"
    by (simp add: group_characters_closed upper_HELLO) (simp add: split_units_def js_def numeral_eq_Suc)
qed

theorem loadGroup_pads_and_truncates_witness:
  "group_characters plain_browser (js ''b'') 5 = [js ''B'', js '' '', js '' '', js '' '', js '' '']
   \<and> (\<exists>ss. loadGroup plain_browser (js ''b'') (text_group (js ''line'') (replicate 5 (drum_slot (js ''character'') CharDrum)))
              = Inr (text_group (js ''line'') ss) \<and> length ss = 5)"
proof -
  let ?g = "text_group (js ''line'') (replicate 5 (drum_slot (js ''character'') CharDrum))"
  have h1: "js ''status'' \<notin> set (gclass ?g)" by (simp add: text_group_def js_def)
  have h2: "\<not> has_image ?g" by (simp add: text_group_def)
  have h3: "\<forall>e \<in> set (slots ?g). order e \<noteq> None" by (simp add: text_group_def drum_slot_def)
  have h4: "5 = length (slots ?g)" by (simp add: text_group_def)
  have up: "toUpperCase plain_browser (js ''b'') = js ''B''"
    by (simp add: toUpperCase_def js_def upper_unit_def)
  from loadGroup_pads_and_truncates [OF h1 h2 h3 h4, of plain_browser "js ''b''"]
  have a: "group_characters plain_browser (js ''b'') 5 =
           take 5 (split_units (toUpperCase plain_browser (js ''b'')))
             @ replicate (5 - length (toUpperCase plain_browser (js ''b''))) (js '' '')"
    and b: "\<exists>ss. loadGroup plain_browser (js ''b'') ?g = Inr (?g\<lparr>slots := ss\<rparr>) \<and> length ss = 5"
    by blast+
  from a have a': "group_characters plain_browser (js ''b'') 5 = [js ''B'', js '' '', js '' '', js '' '', js '' '']"
    unfolding up by (simp add: split_units_def js_def numeral_eq_Suc)
  from b obtain ss where ss: "loadGroup plain_browser (js ''b'') ?g = Inr (?g\<lparr>slots := ss\<rparr>)" "length ss = 5"
    by blast
  have "?g\<lparr>slots := ss\<rparr> = text_group (js ''line'') ss" by (simp add: text_group_def)
  with ss a' show ?thesis by auto
qed

section \<open>Rows: the round trip\<close>

lemma turn_rotate:
  assumes "drum_fit vs"
  shows "\<exists>n. turn vs c = rotate n vs"
    and "vs \<noteq> [] \<Longrightarrow> turn vs c ! 0 = (if c \<in> set vs then c else blank)"
proof -
  show "\<exists>n. turn vs c = rotate n vs"
  proof (cases "vs = []")
    case True
    then show ?thesis by (simp add: turn_def rotate_js_empty)
  next
    case False
    with assms have b: "c \<in> set vs \<or> blank \<in> set vs" and l: "length vs < 2 ^ 31"
      by (auto simp: drum_fit_def)
    from rotate_js_target [OF target_index_resolved(1) [OF b] l] show ?thesis
      by (auto simp: turn_def)
  qed
  assume "vs \<noteq> []"
  with assms have b: "c \<in> set vs \<or> blank \<in> set vs" and l: "length vs < 2 ^ 31"
    by (auto simp: drum_fit_def)
  from rotate_js_settles(2) [OF b l] show "turn vs c ! 0 = (if c \<in> set vs then c else blank)"
    by (simp add: turn_def)
qed

lemma drum_fit_rotate: "drum_fit vs \<Longrightarrow> drum_fit (rotate n vs)"
  by (auto simp: drum_fit_def)

lemma drum_fit_turn: "drum_fit vs \<Longrightarrow> drum_fit (turn vs c)"
  using turn_rotate(1) [of vs c] drum_fit_rotate by metis

lemma rotate_canonical:
  assumes "distinct vs" "vs \<noteq> []" "rotate a vs ! 0 = rotate b vs ! 0"
  shows "rotate a vs = rotate b vs"
proof -
  let ?n = "length vs"
  from assms(2) have n: "0 < ?n" by simp
  have ra: "rotate a vs = rotate (a mod ?n) vs" by (rule rotate_conv_mod)
  have rb: "rotate b vs = rotate (b mod ?n) vs" by (rule rotate_conv_mod)
  have "vs ! (a mod ?n) = vs ! (b mod ?n)"
    using assms(3) hd_rotate_nth [of "a mod ?n" vs] hd_rotate_nth [of "b mod ?n" vs] n ra rb
    by simp
  with assms(1) n have "a mod ?n = b mod ?n" by (simp add: nth_eq_iff_index_eq)
  with ra rb show ?thesis by simp
qed

lemma turn_there_and_back:
  assumes "drum_fit vs"
  shows "turn (turn (turn vs x) y) x = turn vs x"
proof (cases "vs = []")
  case True
  then show ?thesis by (simp add: turn_def rotate_js_empty)
next
  case False
  let ?v1 = "turn vs x" and ?v2 = "turn (turn vs x) y" and ?v3 = "turn (turn (turn vs x) y) x"
  have f1: "drum_fit ?v1" and f2: "drum_fit ?v2"
    using assms drum_fit_turn by blast+
  from turn_rotate(1) [OF assms, of x] obtain n1 where n1: "?v1 = rotate n1 vs" by blast
  from turn_rotate(1) [OF f1, of y] obtain n2 where n2: "?v2 = rotate n2 ?v1" by blast
  from turn_rotate(1) [OF f2, of x] obtain n3 where n3: "?v3 = rotate n3 ?v2" by blast
  have s2: "set ?v2 = set vs" and ne2: "?v2 \<noteq> []" using n1 n2 False by simp_all
  have v3: "?v3 = rotate (n3 + (n2 + n1)) vs" using n1 n2 n3 by (simp add: rotate_rotate)
  have h3: "?v3 ! 0 = (if x \<in> set vs then x else blank)"
    using turn_rotate(2) [OF f2 ne2, of x] s2 by simp
  have h1: "?v1 ! 0 = (if x \<in> set vs then x else blank)"
    using turn_rotate(2) [OF assms False, of x] by simp
  have "rotate (n3 + (n2 + n1)) vs = rotate n1 vs"
  proof (rule rotate_canonical)
    show "distinct vs" using assms by (simp add: drum_fit_def)
    show "vs \<noteq> []" by (rule False)
    show "rotate (n3 + (n2 + n1)) vs ! 0 = rotate n1 vs ! 0" using h3 h1 v3 n1 by simp
  qed
  with v3 n1 show ?thesis by simp
qed

lemma change_set_turned:
  "data_order container = Some vs \<Longrightarrow>
     change container c isChar = Inr (map (set_turned vs c isChar) container)"
  using change_closed [of container vs c isChar] by (simp add: set_turned_def turn_def)

lemma change_turned: "order e = Some vs \<Longrightarrow> change [e] c isChar = Inr [turned e c isChar]"
  using change_set_turned [of "[e]" vs c isChar] by (simp add: data_order_def turned_def)

lemma change_each_turned:
  "length cs = length es \<Longrightarrow> \<forall>e \<in> set es. order e \<noteq> None \<Longrightarrow>
     change_each es cs = Inr (map (\<lambda>(e, c). turned e c True) (zip es cs))"
proof (induction es arbitrary: cs)
  case Nil
  then show ?case by simp
next
  case (Cons e es)
  from Cons.prems(1) obtain c cs' where cs: "cs = c # cs'" "length cs' = length es"
    by (cases cs) auto
  from Cons.prems(2) obtain vs where vs: "order e = Some vs" by auto
  from Cons.IH [OF cs(2)] Cons.prems(2)
  have "change_each es cs' = Inr (map (\<lambda>(e, c). turned e c True) (zip es cs'))" by simp
  with change_turned [OF vs, of c True] cs(1) show ?case by simp
qed

lemma slot_ok_set_turned: "drum_fit vs \<Longrightarrow> slot_ok (set_turned vs c isChar e)"
  by (simp add: slot_ok_def set_turned_def drum_fit_turn)

lemma slot_ok_turned:
  assumes "slot_ok e"
  shows "slot_ok (turned e c isChar)"
proof (cases "order e")
  case None
  with assms show ?thesis by (simp add: slot_ok_def)
next
  case (Some vs)
  with assms have "drum_fit vs" by (simp add: slot_ok_def)
  with Some show ?thesis by (simp add: turned_def slot_ok_set_turned)
qed

lemma face_set_turned: "face_slot (set_turned vs c isChar e) = (face_slot e)\<lparr>order := Some (turn vs c)\<rparr>"
  by (simp add: face_slot_def set_turned_def)

lemma face_turned_back:
  assumes "slot_ok e"
  shows "face_slot (turned (turned (turned e x b1) y b2) x b3) = face_slot (turned e x b1)"
proof -
  from assms obtain vs where vs: "order e = Some vs" "drum_fit vs"
    by (auto simp: slot_ok_def split: option.splits)
  have o1: "order (turned e x b1) = Some (turn vs x)" using vs(1) by (simp add: turned_def set_turned_def)
  have o2: "order (turned (turned e x b1) y b2) = Some (turn (turn vs x) y)"
    using o1 by (simp add: turned_def set_turned_def)
  have "face_slot (turned (turned (turned e x b1) y b2) x b3)
      = (face_slot e)\<lparr>order := Some (turn (turn (turn vs x) y) x)\<rparr>"
    using vs(1) o1 o2 by (simp add: turned_def face_set_turned)
  also have "\<dots> = (face_slot e)\<lparr>order := Some (turn vs x)\<rparr>"
    using turn_there_and_back [OF vs(2)] by simp
  also have "\<dots> = face_slot (turned e x b1)" using vs(1) by (simp add: turned_def face_set_turned)
  finally show ?thesis .
qed

lemma loadGroup_status:
  "js ''status'' \<in> set (gclass g) \<Longrightarrow>
     loadGroup br x g =
       (case jq_find br (js ''.s'' @ x) of
          None \<Rightarrow> Inl SyntaxError
        | Some found \<Rightarrow> Inr (g\<lparr>lights := relight found (lights g)\<rparr>))"
  by (simp add: loadGroup_def relight_def Let_def split: option.split)

lemma loadGroup_image:
  "js ''status'' \<notin> set (gclass g) \<Longrightarrow> has_image g \<Longrightarrow> data_order (slots g) = Some vs \<Longrightarrow>
     loadGroup br x g = Inr (g\<lparr>slots := map (set_turned vs x False) (slots g)\<rparr>)"
  by (simp add: loadGroup_def Let_def change_set_turned)

lemma loadGroup_image_fails:
  "js ''status'' \<notin> set (gclass g) \<Longrightarrow> has_image g \<Longrightarrow> data_order (slots g) = None \<Longrightarrow>
     loadGroup br x g = Inl TypeError"
  by (simp add: loadGroup_def Let_def change_def)

lemma loadGroup_chars:
  "js ''status'' \<notin> set (gclass g) \<Longrightarrow> \<not> has_image g \<Longrightarrow> \<forall>e \<in> set (slots g). order e \<noteq> None \<Longrightarrow>
     loadGroup br x g =
       Inr (g\<lparr>slots := map (\<lambda>(e, c). turned e c True)
                          (zip (slots g) (group_characters br x (length (slots g))))\<rparr>)"
  using change_each_turned [of "group_characters br x (length (slots g))" "slots g"]
  by (simp add: loadGroup_def Let_def length_group_characters)

lemma relight_relight: "relight f (relight h ls) = relight f ls"
proof -
  have rm: "removeClass (js ''on'') (if h d then addClass (js ''on'') d else d) = removeClass (js ''on'') d"
    if "d = removeClass (js ''on'') d0" for d d0
    using that by (auto simp: removeClass_def addClass_def)
  have "map (removeClass (js ''on'')) (relight h ls) = map (removeClass (js ''on'')) ls"
    unfolding relight_def
    by (induction ls) (auto simp: removeClass_def addClass_def)
  then show ?thesis by (simp add: relight_def)
qed

lemma slot_ok_order: "slot_ok e \<Longrightarrow> order e \<noteq> None"
  by (auto simp: slot_ok_def split: option.splits)

lemma loadGroup_round_trip:
  assumes ok: "\<forall>e \<in> set (slots g). slot_ok e"
      and l1: "loadGroup br x g = Inr g1" and l2: "loadGroup br y g1 = Inr g2"
  shows "\<exists>g3. loadGroup br x g2 = Inr g3 \<and> face g3 = face g1"
proof (cases "js ''status'' \<in> set (gclass g)")
  case True
  from l1 True obtain f where f: "jq_find br (js ''.s'' @ x) = Some f"
      and g1: "g1 = g\<lparr>lights := relight f (lights g)\<rparr>"
    by (auto simp: loadGroup_status split: option.splits)
  from g1 True have st1: "js ''status'' \<in> set (gclass g1)" by simp
  from l2 st1 obtain h where g2: "g2 = g1\<lparr>lights := relight h (lights g1)\<rparr>"
    by (auto simp: loadGroup_status split: option.splits)
  from g2 st1 have st2: "js ''status'' \<in> set (gclass g2)" by simp
  have "loadGroup br x g2 = Inr (g2\<lparr>lights := relight f (lights g2)\<rparr>)"
    using st2 f by (simp add: loadGroup_status)
  moreover have "g2\<lparr>lights := relight f (lights g2)\<rparr> = g1"
    using g1 g2 by (simp add: relight_relight)
  ultimately show ?thesis by simp
next
  case False
  note ns = False
  show ?thesis
  proof (cases "has_image g")
    case True
    have "data_order (slots g) \<noteq> None"
      using l1 loadGroup_image_fails [OF ns True, of br x] by auto
    then obtain vs where vs: "data_order (slots g) = Some vs" by auto
    then obtain e0 rest where sl: "slots g = e0 # rest" "order e0 = Some vs"
      by (cases "slots g") (auto simp: data_order_def)
    with ok have fit: "drum_fit vs" by (auto simp: slot_ok_def)
    have g1: "g1 = g\<lparr>slots := map (set_turned vs x False) (slots g)\<rparr>"
      using l1 loadGroup_image [OF ns True vs, of br x] by simp
    have d1: "data_order (slots g1) = Some (turn vs x)"
      using g1 sl by (simp add: data_order_def set_turned_def)
    have g2: "g2 = g1\<lparr>slots := map (set_turned (turn vs x) y False) (slots g1)\<rparr>"
      using l2 loadGroup_image [of g1 "turn vs x" br y] g1 ns True d1 by simp
    have d2: "data_order (slots g2) = Some (turn (turn vs x) y)"
      using g2 g1 sl by (simp add: data_order_def set_turned_def)
    let ?g3 = "g2\<lparr>slots := map (set_turned (turn (turn vs x) y) x False) (slots g2)\<rparr>"
    have "loadGroup br x g2 = Inr ?g3"
      using loadGroup_image [of g2 "turn (turn vs x) y" br x] g2 g1 ns True d2 by simp
    moreover have "face ?g3 = face g1"
      using g1 g2 turn_there_and_back [OF fit, of x y]
      by (simp add: face_def face_set_turned o_def)
    ultimately show ?thesis by blast
  next
    case False
    let ?W = "length (slots g)"
    let ?T = "\<lambda>(e, c). turned e c True"
    from ok have od: "\<forall>e \<in> set (slots g). order e \<noteq> None" using slot_ok_order by blast
    have g1: "g1 = g\<lparr>slots := map ?T (zip (slots g) (group_characters br x ?W))\<rparr>"
      using l1 loadGroup_chars [OF ns False od, of br x] by simp
    have len1: "length (slots g1) = ?W" using g1 by (simp add: length_group_characters)
    have ok1: "\<forall>e \<in> set (slots g1). slot_ok e"
      using g1 ok by (auto simp: slot_ok_turned dest!: set_zip_leftD)
    then have od1: "\<forall>e \<in> set (slots g1). order e \<noteq> None" using slot_ok_order by blast
    have g2: "g2 = g1\<lparr>slots := map ?T (zip (slots g1) (group_characters br y ?W))\<rparr>"
      using l2 loadGroup_chars [of g1 br y] od1 g1 ns False len1 by simp
    have len2: "length (slots g2) = ?W" using g2 len1 by (simp add: length_group_characters)
    have ok2: "\<forall>e \<in> set (slots g2). slot_ok e"
      using g2 ok1 by (auto simp: slot_ok_turned dest!: set_zip_leftD)
    then have od2: "\<forall>e \<in> set (slots g2). order e \<noteq> None" using slot_ok_order by blast
    let ?g3 = "g2\<lparr>slots := map ?T (zip (slots g2) (group_characters br x ?W))\<rparr>"
    have l3: "loadGroup br x g2 = Inr ?g3"
      using loadGroup_chars [of g2 br x] od2 g2 g1 ns False len2 by simp
    have "map face_slot (slots ?g3) = map face_slot (slots g1)"
    proof (rule nth_equalityI)
      show "length (map face_slot (slots ?g3)) = length (map face_slot (slots g1))"
        using len1 len2 by (simp add: length_group_characters)
      fix j assume "j < length (map face_slot (slots ?g3))"
      then have j: "j < ?W" using len2 by (simp add: length_group_characters)
      then have okj: "slot_ok (slots g ! j)" using ok by simp
      have s1: "slots g1 ! j = turned (slots g ! j) (group_characters br x ?W ! j) True"
        using g1 j by (simp add: length_group_characters)
      have s2: "slots g2 ! j = turned (slots g1 ! j) (group_characters br y ?W ! j) True"
        using g2 j len1 by (simp add: length_group_characters)
      have s3: "slots ?g3 ! j = turned (slots g2 ! j) (group_characters br x ?W ! j) True"
        using j len2 by (simp add: length_group_characters)
      show "map face_slot (slots ?g3) ! j = map face_slot (slots g1) ! j"
        using j len1 len2 s1 s2 s3 face_turned_back [OF okj]
        by (simp add: length_group_characters)
    qed
    moreover have "?g3\<lparr>slots := []\<rparr> = g1\<lparr>slots := []\<rparr>" using g1 g2 by simp
    ultimately have "face ?g3 = face g1"
      by (metis (no_types, lifting) face_def group.surjective group.update_convs(4))
    with l3 show ?thesis by blast
  qed
qed

lemma each_Cons_Inr:
  "each f (x # xs) = Inr ys \<longleftrightarrow> (\<exists>y ys'. ys = y # ys' \<and> f x = Inr y \<and> each f xs = Inr ys')"
  by (auto split: sum.splits)

lemma each_Inr_iff: "each f xs = Inr ys \<longleftrightarrow> list_all2 (\<lambda>x y. f x = Inr y) xs ys"
proof (induction xs arbitrary: ys)
  case Nil
  then show ?case by auto
next
  case (Cons x xs)
  show ?case unfolding each_Cons_Inr by (auto simp: Cons.IH list_all2_Cons1)
qed

lemma each_total: "\<forall>x \<in> set xs. \<exists>y. f x = Inr y \<Longrightarrow> \<exists>ys. each f xs = Inr ys"
proof (induction xs)
  case Nil
  then show ?case by simp
next
  case (Cons x xs)
  then obtain y ys where "f x = Inr y" "each f xs = Inr ys" by auto
  then show ?case by simp
qed

lemma change_length:
  assumes "change container c b = Inr r"
  shows "length r = length container"
proof (cases "data_order container")
  case None
  with assms show ?thesis by (simp add: change_def)
next
  case (Some vs)
  from change_closed [OF Some, of c b] assms show ?thesis by auto
qed

lemma change_each_length: "change_each es cs = Inr ss \<Longrightarrow> length ss = length es"
proof (induction es cs arbitrary: ss rule: change_each.induct)
  case (1 elements)
  then show ?case by simp
next
  case (2 c cs)
  then show ?case by simp
next
  case (3 e es c cs)
  from "3.prems" obtain r rs where r: "change [e] c True = Inr r" "change_each es cs = Inr rs" "ss = r @ rs"
    by (auto split: sum.splits)
  with "3.IH" [of r rs] change_length [OF r(1)] show ?case by simp
qed

lemma loadGroup_keeps:
  assumes "loadGroup br y g = Inr g'"
  shows "gclass g' = gclass g" "has_image g' = has_image g" "contents g' = contents g"
    "length (slots g') = length (slots g)"
  using assms change_length [of "slots g" y False]
    change_each_length [of "slots g" "group_characters br y (length (slots g))"]
  by (auto simp: loadGroup_def Let_def split: option.splits sum.splits if_splits)

lemma loadGroup_total:
  assumes "group_ready g"
      and "js ''status'' \<in> set (gclass g) \<longrightarrow> jq_find br (js ''.s'' @ y) \<noteq> None"
  shows "\<exists>g'. loadGroup br y g = Inr g'"
proof (cases "js ''status'' \<in> set (gclass g)")
  case True
  with assms(2) show ?thesis by (auto simp: loadGroup_status)
next
  case False
  note ns = False
  from assms(1) have od: "\<forall>e \<in> set (slots g). order e \<noteq> None"
    using slot_ok_order by (auto simp: group_ready_def)
  show ?thesis
  proof (cases "has_image g")
    case True
    with assms(1) obtain e rest where "slots g = e # rest" by (cases "slots g") (auto simp: group_ready_def)
    with od obtain vs where "data_order (slots g) = Some vs" by (auto simp: data_order_def)
    from loadGroup_image [OF ns True this] show ?thesis by blast
  next
    case False
    from loadGroup_chars [OF ns False od] show ?thesis by blast
  qed
qed

lemma loadGroup_ready:
  assumes "group_ready g" "loadGroup br y g = Inr g'"
  shows "group_ready g'"
proof (cases "js ''status'' \<in> set (gclass g)")
  case True
  with assms show ?thesis
    by (auto simp: loadGroup_status group_ready_def split: option.splits)
next
  case False
  note ns = False
  from assms(1) have ok: "\<forall>e \<in> set (slots g). slot_ok e" by (simp add: group_ready_def)
  then have od: "\<forall>e \<in> set (slots g). order e \<noteq> None" using slot_ok_order by blast
  show ?thesis
  proof (cases "has_image g")
    case True
    with assms(1) obtain e rest where sl: "slots g = e # rest" by (cases "slots g") (auto simp: group_ready_def)
    with ok obtain vs where vs: "order e = Some vs" "drum_fit vs"
      by (auto simp: slot_ok_def split: option.splits)
    with sl have "data_order (slots g) = Some vs" by (simp add: data_order_def)
    from loadGroup_image [OF ns True this, of br y] assms(2)
    have "g' = g\<lparr>slots := map (set_turned vs y False) (slots g)\<rparr>" by simp
    with sl vs(2) show ?thesis by (auto simp: group_ready_def slot_ok_set_turned)
  next
    case False
    from loadGroup_chars [OF ns False od, of br y] assms(2)
    have "g' = g\<lparr>slots := map (\<lambda>(e, c). turned e c True)
                          (zip (slots g) (group_characters br y (length (slots g))))\<rparr>" by simp
    with ok False show ?thesis
      by (auto simp: group_ready_def slot_ok_turned dest!: set_zip_leftD)
  qed
qed

lemma loadGroup_contents:
  "loadGroup br y (g\<lparr>contents := k\<rparr>) =
     (case loadGroup br y g of Inl err \<Rightarrow> Inl err | Inr g' \<Rightarrow> Inr (g'\<lparr>contents := k\<rparr>))"
  by (simp add: loadGroup_def Let_def split: option.splits sum.splits)

lemma loadRow_group_field:
  "loadRow_group br data g =
     (case toString br (field_value data g) of
        Inl err \<Rightarrow> Inl err
      | Inr text \<Rightarrow>
          (case loadGroup br text g of
             Inl err \<Rightarrow> Inl err
           | Inr g' \<Rightarrow> Inr (g'\<lparr>contents := Some (field_value data g)\<rparr>)))"
  by (simp add: loadRow_group_def field_value_def Let_def cong: sum.case_cong)

lemma toString_field: "\<exists>str. toString br (field_value data g) = Inr str"
  by (auto simp: field_value_def toString_def truthy_def split: option.splits jsval.splits)

lemma face_contents: "face (g\<lparr>contents := k\<rparr>) = (face g)\<lparr>contents := k\<rparr>"
  by (simp add: face_def)

lemma group_round_trip:
  assumes rd: "group_ready g" and l1: "loadRow_group br data g = Inr g1"
      and sel: "jq_find br (js ''.s'' @ js '' '') \<noteq> None"
  shows "\<exists>g2 g3. loadGroup br (js '' '') g1 = Inr g2 \<and> loadRow_group br data g2 = Inr g3
           \<and> face g3 = face g1"
proof -
  let ?d = "field_value data g"
  from toString_field obtain str where tx: "toString br ?d = Inr str" by blast
  from l1 tx obtain g1' where g1': "loadGroup br str g = Inr g1'" "g1 = g1'\<lparr>contents := Some ?d\<rparr>"
    by (auto simp: loadRow_group_field split: sum.splits)
  have rd1: "group_ready g1'" using loadGroup_ready [OF rd g1'(1)] .
  from loadGroup_total [OF rd1, of br "js '' ''"] sel
  obtain g2' where g2': "loadGroup br (js '' '') g1' = Inr g2'" by blast
  have ok: "\<forall>e \<in> set (slots g). slot_ok e" using rd by (simp add: group_ready_def)
  from loadGroup_round_trip [OF ok g1'(1) g2']
  obtain g3' where g3': "loadGroup br str g2' = Inr g3'" "face g3' = face g1'" by blast
  let ?g2 = "g2'\<lparr>contents := Some ?d\<rparr>"
  have c2: "loadGroup br (js '' '') g1 = Inr ?g2"
    using g1'(2) g2' by (simp add: loadGroup_contents)
  have cl: "gclass ?g2 = gclass g"
    using loadGroup_keeps(1) [OF g1'(1)] loadGroup_keeps(1) [OF g2'] by simp
  then have fv: "field_value data ?g2 = ?d" by (simp add: field_value_def)
  have "loadRow_group br data ?g2 = Inr (g3'\<lparr>contents := Some ?d\<rparr>)"
    using fv tx g3'(1) by (simp add: loadRow_group_field loadGroup_contents)
  moreover have "face (g3'\<lparr>contents := Some ?d\<rparr>) = face g1"
    using g3'(2) g1'(2) by (simp add: face_contents)
  ultimately show ?thesis using c2 by blast
qed

lemma row_round_trip:
  assumes "\<forall>g \<in> set row. group_ready g" and "loadRow br data row = Inr r1"
      and "jq_find br (js ''.s'' @ js '' '') \<noteq> None"
  shows "\<exists>r2 r3. clearRow br r1 = Inr r2 \<and> loadRow br data r2 = Inr r3 \<and> map face r3 = map face r1"
  using assms(1,2)
proof (induction row arbitrary: r1)
  case Nil
  then show ?case by (simp add: loadRow_def clearRow_def)
next
  case (Cons g gs)
  from Cons.prems(2) obtain g1 gs1 where r1: "r1 = g1 # gs1"
      "loadRow_group br data g = Inr g1" "loadRow br data gs = Inr gs1"
    unfolding loadRow_def each_Cons_Inr by blast
  from Cons.IH [OF _ r1(3)] Cons.prems(1) obtain gs2 gs3 where
    gs: "clearRow br gs1 = Inr gs2" "loadRow br data gs2 = Inr gs3" "map face gs3 = map face gs1"
    by auto
  from group_round_trip [OF _ r1(2) assms(3)] Cons.prems(1) obtain g2 g3 where
    g: "loadGroup br (js '' '') g1 = Inr g2" "loadRow_group br data g2 = Inr g3" "face g3 = face g1"
    by auto
  have "clearRow br r1 = Inr (g2 # gs2)" using r1(1) g(1) gs(1) by (simp add: clearRow_def)
  moreover have "loadRow br data (g2 # gs2) = Inr (g3 # gs3)"
    using g(2) gs(2) by (simp add: loadRow_def)
  moreover have "map face (g3 # gs3) = map face r1" using r1(1) g(3) gs(3) by simp
  ultimately show ?case by blast
qed

lemma each_invariant:
  assumes "\<forall>x \<in> set xs. P x" and "\<And>x. P x \<Longrightarrow> \<exists>y. f x = Inr y \<and> Q y"
  shows "\<exists>ys. each f xs = Inr ys \<and> length ys = length xs \<and> (\<forall>y \<in> set ys. Q y)"
  using assms(1)
proof (induction xs)
  case Nil
  then show ?case by simp
next
  case (Cons x xs)
  from Cons obtain ys where ys: "each f xs = Inr ys" "length ys = length xs" "\<forall>y \<in> set ys. Q y" by auto
  from assms(2) [of x] Cons.prems obtain y where y: "f x = Inr y" "Q y" by auto
  from ys y show ?case by (intro exI [of _ "y # ys"]) simp
qed

lemma loadRow_group_total:
  assumes "group_ready g" "\<forall>sel. jq_find br sel \<noteq> None"
  shows "\<exists>g'. loadRow_group br data g = Inr g' \<and> group_ready g'"
proof -
  from toString_field obtain str where tx: "toString br (field_value data g) = Inr str" by blast
  from loadGroup_total [OF assms(1), of br str] assms(2)
  obtain g' where g': "loadGroup br str g = Inr g'" by blast
  from loadGroup_ready [OF assms(1) g'] have "group_ready (g'\<lparr>contents := Some (field_value data g)\<rparr>)"
    by (simp add: group_ready_def)
  with tx g' show ?thesis by (simp add: loadRow_group_field)
qed

lemma loadRow_total:
  assumes "\<forall>g \<in> set row. group_ready g" "\<forall>sel. jq_find br sel \<noteq> None"
  shows "\<exists>r. loadRow br data row = Inr r \<and> length r = length row \<and> (\<forall>g \<in> set r. group_ready g)"
  unfolding loadRow_def
  using each_invariant [of row group_ready "loadRow_group br data" group_ready]
    loadRow_group_total [OF _ assms(2)] assms(1) by blast

text \<open>
  Claim C8. When \<^verbatim>\<open>change\<close> turns a container to a character \<open>c\<close> found at index
  \<open>target\<close> of the stored alphabet, every span is left with that alphabet rotated left by
  \<open>target\<close> positions, so that index 0 holds \<open>c\<close>. Therefore, on a row whose groups are
  ready, loading a record, clearing the row and loading the same record again ends with
  the same groups as the first load (the same alphabets span by span, the same lights
  and the same contents), whatever the flips in between; the clearing and the second
  load return whenever the first load did and jQuery accepts the selector of the
  clearing.
\<close>

theorem rotation_and_round_trip:
  "(data_order container = Some vs \<and> c \<in> set vs \<and> length vs < 2 ^ 31 \<longrightarrow>
      (\<exists>shown. change container c isChar = Inr shown \<and> length shown = length container
         \<and> (\<forall>j < length container. order (shown ! j) = Some (rotate (nat (indexOf vs c)) vs))
         \<and> rotate (nat (indexOf vs c)) vs ! 0 = c))
   \<and> ((\<forall>g \<in> set row. group_ready g) \<and> loadRow br data row = Inr r1
        \<and> jq_find br (js ''.s'' @ js '' '') \<noteq> None \<longrightarrow>
      (\<exists>r2 r3. clearRow br r1 = Inr r2 \<and> loadRow br data r2 = Inr r3
         \<and> map face r3 = map face r1))"
proof (intro conjI impI)
  assume a: "data_order container = Some vs \<and> c \<in> set vs \<and> length vs < 2 ^ 31"
  let ?t = "indexOf vs c"
  have t: "target_index vs c = ?t" "0 \<le> ?t" "nat ?t < length vs" "vs ! nat ?t = c"
    using a target_index_found [of c vs] indexOf_in(1,2,3) [of c vs] by auto
  have rj: "rotate_js vs ?t = rotate (nat ?t) vs"
    using rotate_js_left [of ?t vs] t a by simp
  have hd: "rotate (nat ?t) vs ! 0 = c" using hd_rotate_nth [OF t(3)] t(4) by simp
  from change_set_turned [of container vs c isChar] a
  have "change container c isChar = Inr (map (set_turned vs c isChar) container)" by simp
  moreover have "\<forall>j < length container.
      order (map (set_turned vs c isChar) container ! j) = Some (rotate (nat ?t) vs)"
    using t(1) rj by (simp add: set_turned_def turn_def)
  ultimately show "\<exists>shown. change container c isChar = Inr shown \<and> length shown = length container
         \<and> (\<forall>j < length container. order (shown ! j) = Some (rotate (nat ?t) vs))
         \<and> rotate (nat ?t) vs ! 0 = c"
    using hd by (intro exI [of _ "map (set_turned vs c isChar) container"]) simp
next
  assume "(\<forall>g \<in> set row. group_ready g) \<and> loadRow br data row = Inr r1
        \<and> jq_find br (js ''.s'' @ js '' '') \<noteq> None"
  then show "\<exists>r2 r3. clearRow br r1 = Inr r2 \<and> loadRow br data r2 = Inr r3
         \<and> map face r3 = map face r1"
    using row_round_trip [of row br data r1] by blast
qed

lemma sample_row_ready: "\<forall>g \<in> set sample_row. group_ready g"
  by (simp add: sample_row_def text_group_def drum_slot_def group_ready_def slot_ok_def
      drum_fit_def NumDrum_def blank_def js_def)

lemma plain_browser_finds: "\<forall>sel. jq_find plain_browser sel \<noteq> None"
  by (simp add: plain_browser_def)

theorem rotation_and_round_trip_witness:
  "(\<exists>shown. change [drum_slot (js ''number'') NumDrum] (js ''2'') True = Inr shown
        \<and> map order shown = [Some (rotate 3 NumDrum)] \<and> rotate 3 NumDrum ! 0 = js ''2'')
   \<and> (\<exists>r1 r2 r3. loadRow plain_browser (sample_item 12) sample_row = Inr r1
        \<and> map (map order \<circ> slots) r1 = [[Some (rotate 2 NumDrum), Some (rotate 3 NumDrum)]]
        \<and> clearRow plain_browser r1 = Inr r2
        \<and> loadRow plain_browser (sample_item 12) r2 = Inr r3
        \<and> map face r3 = map face r1)"
proof -
  let ?e = "drum_slot (js ''number'') NumDrum"
  have a: "data_order [?e] = Some NumDrum \<and> js ''2'' \<in> set NumDrum \<and> length NumDrum < 2 ^ 31"
    by (simp add: data_order_def drum_slot_def NumDrum_def js_def)
  have ix: "nat (indexOf NumDrum (js ''2'')) = 3"
    by (simp add: indexOf_def NumDrum_def js_def)
  from loadRow_total [OF sample_row_ready plain_browser_finds, of "sample_item 12"]
  obtain r1 where r1: "loadRow plain_browser (sample_item 12) sample_row = Inr r1" by blast
  have "map (map order \<circ> slots) (projr (loadRow plain_browser (sample_item 12) sample_row))
          = [[Some (rotate 2 NumDrum), Some (rotate 3 NumDrum)]]"
    by code_simp
  with r1 have o1: "map (map order \<circ> slots) r1 = [[Some (rotate 2 NumDrum), Some (rotate 3 NumDrum)]]"
    by simp
  have b: "(\<forall>g \<in> set sample_row. group_ready g)
      \<and> loadRow plain_browser (sample_item 12) sample_row = Inr r1
      \<and> jq_find plain_browser (js ''.s'' @ js '' '') \<noteq> None"
    using sample_row_ready r1 plain_browser_finds by blast
  note inst = rotation_and_round_trip
    [where container = "[?e]" and vs = NumDrum and c = "js ''2''" and isChar = True
       and row = sample_row and br = plain_browser and data = "sample_item 12" and ?r1.0 = r1]
  from inst a obtain shown where s: "change [?e] (js ''2'') True = Inr shown" "length shown = 1"
    "order (shown ! 0) = Some (rotate (nat (indexOf NumDrum (js ''2''))) NumDrum)"
    "rotate (nat (indexOf NumDrum (js ''2''))) NumDrum ! 0 = js ''2''"
    by auto
  from s(2) obtain x where x: "shown = [x]" by (cases shown) auto
  have p1: "\<exists>shown. change [?e] (js ''2'') True = Inr shown
        \<and> map order shown = [Some (rotate 3 NumDrum)] \<and> rotate 3 NumDrum ! 0 = js ''2''"
    using s(1,3,4) x ix by (intro exI [of _ "[x]"]) simp
  from inst b obtain r2 r3 where r: "clearRow plain_browser r1 = Inr r2"
    "loadRow plain_browser (sample_item 12) r2 = Inr r3" "map face r3 = map face r1"
    by blast
  have p2: "\<exists>r1 r2 r3. loadRow plain_browser (sample_item 12) sample_row = Inr r1
        \<and> map (map order \<circ> slots) r1 = [[Some (rotate 2 NumDrum), Some (rotate 3 NumDrum)]]
        \<and> clearRow plain_browser r1 = Inr r2
        \<and> loadRow plain_browser (sample_item 12) r2 = Inr r3
        \<and> map face r3 = map face r1"
  proof (intro exI conjI)
    show "loadRow plain_browser (sample_item 12) sample_row = Inr r1" by (fact r1)
    show "map (map order \<circ> slots) r1 = [[Some (rotate 2 NumDrum), Some (rotate 3 NumDrum)]]"
      by (fact o1)
    show "clearRow plain_browser r1 = Inr r2" by (fact r(1))
    show "loadRow plain_browser (sample_item 12) r2 = Inr r3" by (fact r(2))
    show "map face r3 = map face r1" by (fact r(3))
  qed
  from p1 p2 show ?thesis by (intro conjI)
qed

section \<open>The sequencer and the falsy fields of a record\<close>

lemma upper_blank: "toUpperCase br (js '' '') = js '' ''"
  by (simp add: toUpperCase_def js_def upper_unit_def)

lemma upper_empty: "toUpperCase br [] = []"
  by (simp add: toUpperCase_def)

lemma group_characters_blank: "group_characters br (js '' '') W = replicate W (js '' '')"
proof (cases W)
  case 0
  then show ?thesis by (simp add: group_characters_closed)
next
  case (Suc n)
  have "split_units (js '' '') = [js '' '']" by (simp add: split_units_def js_def)
  moreover have "length (js '' '') = 1" by (simp add: js_def)
  ultimately show ?thesis using Suc by (simp add: group_characters_closed upper_blank)
qed

lemma group_characters_empty: "group_characters br [] W = replicate W (js '' '')"
  by (simp add: group_characters_closed upper_empty split_units_def)

lemma rest_slot_turn:
  assumes "drum_fit vs"
  shows "turn vs blank = [] \<or> turn vs blank ! 0 = blank"
proof (cases "vs = []")
  case True
  then show ?thesis by (simp add: turn_def rotate_js_empty)
next
  case False
  from turn_rotate(2) [OF assms False, of blank] show ?thesis by simp
qed

lemma rest_slot_turned: "slot_ok e \<Longrightarrow> rest_slot (turned e blank isChar)"
  using rest_slot_turn
  by (auto simp: slot_ok_def turned_def set_turned_def rest_slot_def split: option.splits)

lemma clear_group_blank:
  assumes "group_ready g" "loadGroup br (js '' '') g = Inr g'" "js ''status'' \<notin> set (gclass g)"
  shows "\<forall>e \<in> set (slots g'). rest_slot e"
proof (cases "has_image g")
  case True
  from assms(1) have ok: "\<forall>e \<in> set (slots g). slot_ok e" by (simp add: group_ready_def)
  from assms(1) True obtain e rest where sl: "slots g = e # rest"
    by (cases "slots g") (auto simp: group_ready_def)
  with ok obtain vs where vs: "order e = Some vs" "drum_fit vs"
    by (auto simp: slot_ok_def split: option.splits)
  with sl have "data_order (slots g) = Some vs" by (simp add: data_order_def)
  from loadGroup_image [OF assms(3) True this, of br "js '' ''"] assms(2)
  have "g' = g\<lparr>slots := map (set_turned vs (js '' '') False) (slots g)\<rparr>" by simp
  then show ?thesis using rest_slot_turn [OF vs(2)]
    by (auto simp: rest_slot_def set_turned_def blank_def)
next
  case False
  from assms(1) have ok: "\<forall>e \<in> set (slots g). slot_ok e" by (simp add: group_ready_def)
  then have od: "\<forall>e \<in> set (slots g). order e \<noteq> None" using slot_ok_order by blast
  from loadGroup_chars [OF assms(3) False od, of br "js '' ''"] assms(2)
  have g': "slots g' = map (\<lambda>(e, c). turned e c True)
                          (zip (slots g) (replicate (length (slots g)) blank))"
    by (auto simp: group_characters_blank blank_def)
  show ?thesis
  proof
    fix x assume "x \<in> set (slots g')"
    with g' obtain e c where ec: "(e, c) \<in> set (zip (slots g) (replicate (length (slots g)) blank))"
      "x = turned e c True" by auto
    from ec(1) have "e \<in> set (slots g)" "c = blank"
      by (auto dest: set_zip_leftD set_zip_rightD)
    with ec(2) ok show "rest_slot x" by (simp add: rest_slot_turned)
  qed
qed

lemma clearRow_total:
  assumes "\<forall>g \<in> set row. group_ready g" "\<forall>sel. jq_find br sel \<noteq> None"
  shows "\<exists>r. clearRow br row = Inr r \<and> length r = length row
           \<and> (\<forall>g \<in> set r. group_ready g
                 \<and> (js ''status'' \<notin> set (gclass g) \<longrightarrow> (\<forall>e \<in> set (slots g). rest_slot e)))"
proof -
  have step: "\<exists>g'. loadGroup br (js '' '') g = Inr g' \<and> (group_ready g'
                 \<and> (js ''status'' \<notin> set (gclass g') \<longrightarrow> (\<forall>e \<in> set (slots g'). rest_slot e)))"
    if rd: "group_ready g" for g
  proof -
    from loadGroup_total [OF rd, of br "js '' ''"] assms(2)
    obtain g' where g': "loadGroup br (js '' '') g = Inr g'" by blast
    from loadGroup_keeps(1) [OF g'] clear_group_blank [OF rd g'] loadGroup_ready [OF rd g'] g'
    show ?thesis by auto
  qed
  show ?thesis unfolding clearRow_def
    using each_invariant [of row group_ready "loadGroup br (js '' '')"
        "\<lambda>g. group_ready g \<and> (js ''status'' \<notin> set (gclass g) \<longrightarrow> (\<forall>e \<in> set (slots g). rest_slot e))"]
      step assms(1) by blast
qed

lemma row_action_total:
  assumes "\<forall>g \<in> set row. group_ready g" "\<forall>sel. jq_find br sel \<noteq> None"
  shows "\<exists>r. row_action br input i row = Inr r \<and> (\<forall>g \<in> set r. group_ready g)"
  using loadRow_total [OF assms, of "input ! i"] clearRow_total [OF assms]
  by (auto simp: row_action_def)

lemma at_row_action:
  "i < length rows \<Longrightarrow>
     (if i < length input then at_row i (loadRow br (input ! i)) rows
      else at_row i (clearRow br) rows)
     = (case row_action br input i (rows ! i) of Inl err \<Rightarrow> Inl err | Inr r \<Rightarrow> Inr (rows[i := r]))"
  by (simp add: at_row_def row_action_def)

declare seq_loop.simps [simp del]

lemma seq_loop_closed:
  assumes "i < n" "n = length rows"
      and "\<forall>j. i \<le> j \<and> j < n \<longrightarrow> (\<exists>r. row_action br input j (rows ! j) = Inr r)"
  shows "\<exists>rows'. seq_loop br input n i rows out
                  = Inr (rows', out @ map (pass_line input) [i ..< n] @ [BoardRendered])
           \<and> length rows' = n \<and> (\<forall>j < i. rows' ! j = rows ! j)
           \<and> (\<forall>j. i \<le> j \<and> j < n \<longrightarrow> row_action br input j (rows ! j) = Inr (rows' ! j))"
  using assms
proof (induction "n - i" arbitrary: i rows out)
  case 0
  then show ?case by simp
next
  case (Suc k)
  from Suc.prems obtain r where r: "row_action br input i (rows ! i) = Inr r" by auto
  let ?rows = "rows[i := r]"
  let ?out = "out @ [pass_line input i]"
  have unfold: "seq_loop br input n i rows out =
     (if Suc i < n then seq_loop br input n (Suc i) ?rows ?out else Inr (?rows, ?out @ [BoardRendered]))"
    using Suc.prems(1,2) r
    by (subst seq_loop.simps) (simp add: at_row_action pass_line_def Let_def)
  show ?case
  proof (cases "Suc i < n")
    case True
    have k: "k = n - Suc i" using Suc.hyps(2) by simp
    have len: "n = length ?rows" using Suc.prems(2) by simp
    have ex: "\<forall>j. Suc i \<le> j \<and> j < n \<longrightarrow> (\<exists>r. row_action br input j (?rows ! j) = Inr r)"
      using Suc.prems(3) by auto
    from Suc.hyps(1) [OF k True len ex, of ?out] obtain rows' where
      rows': "seq_loop br input n (Suc i) ?rows ?out
                = Inr (rows', ?out @ map (pass_line input) [Suc i ..< n] @ [BoardRendered])"
        "length rows' = n" "\<forall>j < Suc i. rows' ! j = ?rows ! j"
        "\<forall>j. Suc i \<le> j \<and> j < n \<longrightarrow> row_action br input j (?rows ! j) = Inr (rows' ! j)"
      by blast
    have up: "[i ..< n] = i # [Suc i ..< n]" using Suc.prems(1) by (simp add: upt_conv_Cons)
    have a: "seq_loop br input n i rows out
               = Inr (rows', out @ map (pass_line input) [i ..< n] @ [BoardRendered])"
      using unfold True rows'(1) up by simp
    have b: "\<forall>j < i. rows' ! j = rows ! j" using rows'(3) by auto
    have c: "\<forall>j. i \<le> j \<and> j < n \<longrightarrow> row_action br input j (rows ! j) = Inr (rows' ! j)"
    proof (intro allI impI)
      fix j assume j: "i \<le> j \<and> j < n"
      show "row_action br input j (rows ! j) = Inr (rows' ! j)"
      proof (cases "j = i")
        case True
        with rows'(3) Suc.prems(1,2) r show ?thesis by simp
      next
        case False
        with j rows'(4) show ?thesis by auto
      qed
    qed
    from a rows'(2) b c show ?thesis by blast
  next
    case False
    with Suc.prems(1) have n: "n = Suc i" by simp
    then have up: "[i ..< n] = [i]" by simp
    have a: "seq_loop br input n i rows out
               = Inr (?rows, out @ map (pass_line input) [i ..< n] @ [BoardRendered])"
      using unfold False up by simp
    have c: "\<forall>j. i \<le> j \<and> j < n \<longrightarrow> row_action br input j (rows ! j) = Inr (?rows ! j)"
      using n r Suc.prems(2) by (auto simp: le_less_Suc_eq)
    from a c Suc.prems(2) show ?thesis by (intro exI [of _ ?rows]) simp
  qed
qed

lemma board_row_ready:
  assumes "\<forall>row \<in> set rows. \<forall>g \<in> set row. group_ready g" "j < length rows"
  shows "\<forall>g \<in> set (rows ! j). group_ready g"
proof -
  from assms(2) have "rows ! j \<in> set rows" by (rule nth_mem)
  with assms(1) show ?thesis by (rule bspec)
qed

lemma loadSequentially_closed:
  assumes "\<forall>row \<in> set rows. \<forall>g \<in> set row. group_ready g" and "\<forall>sel. jq_find br sel \<noteq> None"
  shows "\<exists>rows'. loadSequentially br input (rows, out)
                  = Inr (rows', out @ map (pass_line input) [0 ..< max 1 (length rows)] @ [BoardRendered])
           \<and> length rows' = length rows
           \<and> (\<forall>i < length rows. row_action br input i (rows ! i) = Inr (rows' ! i))
           \<and> (\<forall>row \<in> set rows'. \<forall>g \<in> set row. group_ready g)"
proof (cases "rows = []")
  case True
  have "seq_loop br input 0 0 [] out = Inr ([], out @ [pass_line input 0] @ [BoardRendered])"
    by (subst seq_loop.simps) (simp add: at_row_def pass_line_def Let_def)
  with True show ?thesis by (simp add: loadSequentially_def)
next
  case False
  then have pos: "0 < length rows" by simp
  have ex: "\<forall>j. 0 \<le> j \<and> j < length rows \<longrightarrow> (\<exists>r. row_action br input j (rows ! j) = Inr r)"
  proof (intro allI impI)
    fix j assume "0 \<le> j \<and> j < length rows"
    then have "\<forall>g \<in> set (rows ! j). group_ready g" using board_row_ready [OF assms(1)] by simp
    from row_action_total [OF this assms(2), of input j]
    show "\<exists>r. row_action br input j (rows ! j) = Inr r" by blast
  qed
  from seq_loop_closed [OF pos refl ex, of out] obtain rows' where
    h: "seq_loop br input (length rows) 0 rows out
              = Inr (rows', out @ map (pass_line input) [0 ..< length rows] @ [BoardRendered])
        \<and> length rows' = length rows \<and> (\<forall>j < 0. rows' ! j = rows ! j)
        \<and> (\<forall>j. 0 \<le> j \<and> j < length rows \<longrightarrow> row_action br input j (rows ! j) = Inr (rows' ! j))"
    ..
  note rows' = conjunct1 [OF h] conjunct1 [OF conjunct2 [OF h]]
    conjunct2 [OF conjunct2 [OF conjunct2 [OF h]]]
  have rd: "\<forall>row \<in> set rows'. \<forall>g \<in> set row. group_ready g"
  proof
    fix row assume "row \<in> set rows'"
    then obtain j where j: "j < length rows" "row = rows' ! j"
      using rows'(2) by (auto simp: in_set_conv_nth)
    with rows'(3) have a: "row_action br input j (rows ! j) = Inr row" by simp
    from j(1) have "\<forall>g \<in> set (rows ! j). group_ready g" by (rule board_row_ready [OF assms(1)])
    from row_action_total [OF this assms(2), of input j] a
    show "\<forall>g \<in> set row. group_ready g" by simp
  qed
  have "max 1 (length rows) = length rows" using False by (cases rows) simp_all
  with rows' rd show ?thesis
    by (intro exI [of _ rows']) (simp add: loadSequentially_def)
qed

lemma busy_row_ready: "\<forall>g \<in> set busy_row. group_ready g"
  by (simp add: busy_row_def text_group_def drum_slot_def group_ready_def slot_ok_def
      drum_fit_def NumDrum_def blank_def js_def)

section \<open>Passes that throw, and browsers that reject a selector\<close>
























section \<open>Unknown characters and falsy fields\<close>

lemma change_reaches_blank:
  assumes "data_order container = Some vs" and "blank \<in> set vs" and "length vs < 2 ^ 31"
      and "target_index vs c = indexOf vs blank"
  shows "\<exists>shown. change container c isChar = Inr shown \<and> length shown = length container
         \<and> (\<forall>j < length container.
               order (shown ! j) = Some (rotate_js vs (indexOf vs blank))
             \<and> rotate_js vs (indexOf vs blank) ! 0 = blank
             \<and> on_blank (shown ! j)
             \<and> (flips (shown ! j) = flips (container ! j) \<or> last (flips (shown ! j)) = js ''csp''))"
proof -
  let ?t = "indexOf vs blank"
  let ?shown = "map (\<lambda>e. e\<lparr>flips := flips e @
                  map (\<lambda>k. show_class (Some (vs ! k)) isChar) [1 ..< Suc (nat ?t)],
                order := Some (rotate_js vs ?t)\<rparr>) container"
  have ch: "change container c isChar = Inr ?shown"
    using change_closed [OF assms(1), of c isChar] assms(4) by simp
  have tb: "target_index vs blank = ?t" using assms(2) by (simp add: target_index_found)
  have ne: "rotate_js vs ?t \<noteq> []"
    using rotate_js_settles(1) [of blank vs] assms(2,3) tb by simp
  have hd: "rotate_js vs ?t ! 0 = blank"
    using rotate_js_settles(2) [of blank vs] assms(2,3) tb by simp
  have ob: "js_at (rotate_js vs ?t) 0 = Some blank"
    using ne hd by (simp add: js_at_def)
  have bl: "0 \<le> ?t" "vs ! nat ?t = blank" using indexOf_in(1,3) [OF assms(2)] by auto
  have fl: "map (\<lambda>k. show_class (Some (vs ! k)) isChar) [1 ..< Suc (nat ?t)] = []
          \<or> last (map (\<lambda>k. show_class (Some (vs ! k)) isChar) [1 ..< Suc (nat ?t)]) = js ''csp''"
  proof (cases "nat ?t = 0")
    case True
    then show ?thesis by simp
  next
    case False
    then have "[1 ..< Suc (nat ?t)] = [1 ..< nat ?t] @ [nat ?t]" by simp
    then show ?thesis using bl(2) by (simp add: show_class_blank)
  qed
  have "\<forall>j < length container.
               order (?shown ! j) = Some (rotate_js vs ?t)
             \<and> rotate_js vs ?t ! 0 = blank
             \<and> on_blank (?shown ! j)
             \<and> (flips (?shown ! j) = flips (container ! j) \<or> last (flips (?shown ! j)) = js ''csp'')"
    using hd fl ob by (auto simp: on_blank_def)
  then show ?thesis using ch by (intro exI [of _ ?shown]) simp
qed

lemma image_drum_not_blank: "order e = Some ImageDrum \<Longrightarrow> \<not> on_blank e"
  by (simp add: on_blank_def ImageDrum_def js_at_def)

text \<open>
  Claim C6, as amended. A call of \<^verbatim>\<open>change\<close> with a character that is not in the stored
  alphabet \<open>vs\<close>, while \<open>vs\<close> holds the blank (as the full, character and numeric drums
  and all their rotations do), returns and leaves every span on the blank: the blank is
  at index 0 of its alphabet, and the last class it shows, if it shows any, is that of
  the blank. On the image drum, which is empty, the call returns and leaves the span as
  it was: nothing is shown and the span is not on the blank. Loading a group, whatever
  the input: a text or number group whose spans all hold a drum returns, each span
  changed to its character; an image group whose first span holds a drum returns, and
  an image group without a span throws a type error; a status group, which has no drum,
  returns when jQuery accepts the selector \<^verbatim>\<open>'.s' + input\<close> and throws jQuery's syntax
  error when it does not.
\<close>

theorem unknown_character_resolves_to_blank:
  "(data_order container = Some vs \<and> c \<notin> set vs \<and> blank \<in> set vs \<and> length vs < 2 ^ 31 \<longrightarrow>
      (\<exists>shown. change container c isChar = Inr shown \<and> length shown = length container
         \<and> (\<forall>j < length container.
               order (shown ! j) = Some (rotate_js vs (indexOf vs blank))
             \<and> rotate_js vs (indexOf vs blank) ! 0 = blank
             \<and> on_blank (shown ! j)
             \<and> (flips (shown ! j) = flips (container ! j) \<or> last (flips (shown ! j)) = js ''csp''))))
   \<and> (order e = Some ImageDrum \<longrightarrow> change [e] c isChar = Inr [e] \<and> \<not> on_blank e)
   \<and> (js ''status'' \<notin> set (gclass g) \<and> \<not> has_image g \<and> (\<forall>x \<in> set (slots g). order x \<noteq> None) \<longrightarrow>
        (\<exists>ss. loadGroup br input g = Inr (g\<lparr>slots := ss\<rparr>) \<and> length ss = length (slots g)
           \<and> (\<forall>j < length (slots g).
                 change [slots g ! j] (group_characters br input (length (slots g)) ! j) True
                   = Inr [ss ! j])))
   \<and> (js ''status'' \<notin> set (gclass g) \<and> has_image g \<and> data_order (slots g) = Some ws \<longrightarrow>
        (\<exists>ss. loadGroup br input g = Inr (g\<lparr>slots := ss\<rparr>) \<and> change (slots g) input False = Inr ss))
   \<and> (js ''status'' \<notin> set (gclass g) \<and> has_image g \<and> slots g = [] \<longrightarrow>
        loadGroup br input g = Inl TypeError)
   \<and> (js ''status'' \<in> set (gclass g) \<and> jq_find br (js ''.s'' @ input) \<noteq> None \<longrightarrow>
        (\<exists>ls. loadGroup br input g = Inr (g\<lparr>lights := ls\<rparr>)))
   \<and> (js ''status'' \<in> set (gclass g) \<and> jq_find br (js ''.s'' @ input) = None \<longrightarrow>
        loadGroup br input g = Inl SyntaxError)"
proof (intro conjI impI)
  assume a: "data_order container = Some vs \<and> c \<notin> set vs \<and> blank \<in> set vs \<and> length vs < 2 ^ 31"
  then have t: "target_index vs c = indexOf vs blank" by (simp add: target_index_fallback)
  from a have a1: "data_order container = Some vs" and a2: "blank \<in> set vs"
    and a3: "length vs < 2 ^ 31" by simp_all
  show "\<exists>shown. change container c isChar = Inr shown \<and> length shown = length container
         \<and> (\<forall>j < length container.
               order (shown ! j) = Some (rotate_js vs (indexOf vs blank))
             \<and> rotate_js vs (indexOf vs blank) ! 0 = blank
             \<and> on_blank (shown ! j)
             \<and> (flips (shown ! j) = flips (container ! j) \<or> last (flips (shown ! j)) = js ''csp''))"
    by (rule change_reaches_blank [OF a1 a2 a3 t])
next
  assume "order e = Some ImageDrum"
  then show "change [e] c isChar = Inr [e]"
    using change_single [of e "[]" c isChar]
    by (simp add: ImageDrum_def target_index_def indexOf_def rotate_js_empty)
next
  assume "order e = Some ImageDrum"
  then show "\<not> on_blank e" by (rule image_drum_not_blank)
next
  assume a: "js ''status'' \<notin> set (gclass g) \<and> \<not> has_image g \<and> (\<forall>x \<in> set (slots g). order x \<noteq> None)"
  show "\<exists>ss. loadGroup br input g = Inr (g\<lparr>slots := ss\<rparr>) \<and> length ss = length (slots g)
           \<and> (\<forall>j < length (slots g).
                 change [slots g ! j] (group_characters br input (length (slots g)) ! j) True
                   = Inr [ss ! j])"
    by (rule loadGroup_text [OF conjunct1 [OF a] conjunct1 [OF conjunct2 [OF a]]
          conjunct2 [OF conjunct2 [OF a]]])
next
  assume a: "js ''status'' \<notin> set (gclass g) \<and> has_image g \<and> data_order (slots g) = Some ws"
  then have d: "data_order (slots g) = Some ws" by simp
  from change_closed [OF d, of input False] a
  show "\<exists>ss. loadGroup br input g = Inr (g\<lparr>slots := ss\<rparr>) \<and> change (slots g) input False = Inr ss"
    by (simp add: loadGroup_def Let_def)
next
  assume a: "js ''status'' \<notin> set (gclass g) \<and> has_image g \<and> slots g = []"
  then have "data_order (slots g) = None" by (simp add: data_order_def)
  with a show "loadGroup br input g = Inl TypeError" by (simp add: loadGroup_image_fails)
next
  assume a: "js ''status'' \<in> set (gclass g) \<and> jq_find br (js ''.s'' @ input) \<noteq> None"
  then obtain found where "jq_find br (js ''.s'' @ input) = Some found" by auto
  with a have "loadGroup br input g = Inr (g\<lparr>lights := relight found (lights g)\<rparr>)"
    by (simp add: loadGroup_status)
  then show "\<exists>ls. loadGroup br input g = Inr (g\<lparr>lights := ls\<rparr>)" ..
next
  assume "js ''status'' \<in> set (gclass g) \<and> jq_find br (js ''.s'' @ input) = None"
  then show "loadGroup br input g = Inl SyntaxError" by (simp add: loadGroup_status)
qed

text \<open>
  Claim C6 as stated fails in three ways. On an image span, whose drum is empty, an
  unknown character shows nothing and leaves the alphabet empty: there is no index 0, so
  the span is not on the blank. Loading the status \<^verbatim>\<open>?\<close> into a status group throws:
  jQuery rejects the selector \<^verbatim>\<open>.s?\<close>. And loading an image group that has no span
  throws: \<^verbatim>\<open>change\<close> reads the drum of an empty set of spans.
\<close>

theorem image_unknown_character_counterexample:
  "change [\<lparr>div_class = js ''image'', order = Some ImageDrum, flips = []\<rparr>] (js ''X'') False
     = Inr [\<lparr>div_class = js ''image'', order = Some [], flips = []\<rparr>]
   \<and> \<not> on_blank \<lparr>div_class = js ''image'', order = Some [], flips = []\<rparr>
   \<and> js_at ImageDrum (indexOf ImageDrum blank) = None
   \<and> loadGroup picky_browser (js ''?'') status_group = Inl SyntaxError
   \<and> loadGroup picky_browser (js ''X'') (image_group []) = Inl TypeError"
proof (intro conjI)
  show "change [\<lparr>div_class = js ''image'', order = Some ImageDrum, flips = []\<rparr>] (js ''X'') False
     = Inr [\<lparr>div_class = js ''image'', order = Some [], flips = []\<rparr>]"
    using change_single [of "\<lparr>div_class = js ''image'', order = Some ImageDrum, flips = []\<rparr>" "[]"
          "js ''X''" False]
    by (simp add: ImageDrum_def target_index_def indexOf_def rotate_js_empty)
  show "\<not> on_blank \<lparr>div_class = js ''image'', order = Some [], flips = []\<rparr>"
    by (simp add: on_blank_def js_at_def)
  show "js_at ImageDrum (indexOf ImageDrum blank) = None"
    by (simp add: ImageDrum_def js_at_def)
  show "loadGroup picky_browser (js ''?'') status_group = Inl SyntaxError"
    by code_simp
  show "loadGroup picky_browser (js ''X'') (image_group []) = Inl TypeError"
    by code_simp
qed

theorem unknown_character_resolves_to_blank_witness:
  "(\<exists>shown. change [drum_slot (js ''number'') (rotate 3 NumDrum)] (js ''X'') True = Inr shown
          \<and> map order shown = [Some NumDrum]
          \<and> map (\<lambda>e. last (flips e)) shown = [js ''csp''])
   \<and> change [drum_slot (js ''image'') ImageDrum] (js ''X'') False
       = Inr [drum_slot (js ''image'') ImageDrum]
   \<and> \<not> on_blank (drum_slot (js ''image'') ImageDrum)
   \<and> (\<exists>ss. loadGroup picky_browser (js ''X'')
               (text_group (js ''line'') [drum_slot (js ''number'') (rotate 3 NumDrum)])
             = Inr (text_group (js ''line'') ss)
          \<and> map order ss = [Some NumDrum])
   \<and> (\<exists>ss. loadGroup picky_browser (js ''X'') (image_group [drum_slot (js ''image'') ImageDrum])
             = Inr (image_group ss))
   \<and> loadGroup picky_browser (js ''X'') (image_group []) = Inl TypeError
   \<and> (\<exists>ls. loadGroup picky_browser (js ''A'') status_group = Inr (status_group\<lparr>lights := ls\<rparr>))
   \<and> loadGroup picky_browser (js ''?'') status_group = Inl SyntaxError"
proof -
  let ?vs = "rotate 3 NumDrum"
  let ?e = "drum_slot (js ''number'') ?vs"
  let ?i = "drum_slot (js ''image'') ImageDrum"
  let ?g = "text_group (js ''line'') [?e]"
  note inst = unknown_character_resolves_to_blank
    [where container = "[?e]" and vs = ?vs and c = "js ''X''" and isChar = True
       and e = ?i and g = ?g and br = picky_browser and input = "js ''X''"]
  note inst' = unknown_character_resolves_to_blank
    [where container = "[?e]" and vs = ?vs and c = "js ''X''" and isChar = False
       and e = ?i and g = ?g and br = picky_browser and input = "js ''X''"]
  note inst_image = unknown_character_resolves_to_blank
    [where ws = ImageDrum and g = "image_group [?i]" and br = picky_browser and input = "js ''X''"]
  note inst_empty = unknown_character_resolves_to_blank
    [where g = "image_group []" and br = picky_browser and input = "js ''X''"]
  note inst_A = unknown_character_resolves_to_blank
    [where g = status_group and br = picky_browser and input = "js ''A''"]
  note inst_Q = unknown_character_resolves_to_blank
    [where g = status_group and br = picky_browser and input = "js ''?''"]
  have a: "data_order [?e] = Some ?vs \<and> js ''X'' \<notin> set ?vs \<and> blank \<in> set ?vs \<and> length ?vs < 2 ^ 31"
    by (simp add: data_order_def drum_slot_def NumDrum_def js_def blank_def)
  have rt: "rotate_js ?vs (indexOf ?vs blank) = NumDrum" by code_simp
  have fl: "map (\<lambda>e. last (flips e)) (projr (change [?e] (js ''X'') True)) = [js ''csp'']"
    by code_simp
  from mp [OF conjunct1 [OF inst] a] obtain shown where
    h: "change [?e] (js ''X'') True = Inr shown \<and> length shown = length [?e]
         \<and> (\<forall>j < length [?e].
               order (shown ! j) = Some (rotate_js ?vs (indexOf ?vs blank))
             \<and> rotate_js ?vs (indexOf ?vs blank) ! 0 = blank
             \<and> on_blank (shown ! j)
             \<and> (flips (shown ! j) = flips ([?e] ! j) \<or> last (flips (shown ! j)) = js ''csp''))"
    ..
  note s = conjunct1 [OF h] conjunct1 [OF conjunct2 [OF h]] conjunct2 [OF conjunct2 [OF h]]
  from s(2) obtain x where x: "shown = [x]" by (cases shown) auto
  from s(3) have ord: "order (shown ! 0) = Some (rotate_js ?vs (indexOf ?vs blank))" by simp
  have p1: "\<exists>shown. change [?e] (js ''X'') True = Inr shown
          \<and> map order shown = [Some NumDrum]
          \<and> map (\<lambda>e. last (flips e)) shown = [js ''csp'']"
  proof (intro exI conjI)
    show "change [?e] (js ''X'') True = Inr shown" by (fact s(1))
    show "map order shown = [Some NumDrum]" using ord x rt by simp
    show "map (\<lambda>e. last (flips e)) shown = [js ''csp'']" using fl s(1) by simp
  qed
  have b: "order ?i = Some ImageDrum" by (simp add: drum_slot_def)
  from mp [OF conjunct1 [OF conjunct2 [OF inst']] b]
  have p2: "change [?i] (js ''X'') False = Inr [?i]" and p2': "\<not> on_blank ?i" by simp_all
  have c: "js ''status'' \<notin> set (gclass ?g) \<and> \<not> has_image ?g \<and> (\<forall>x \<in> set (slots ?g). order x \<noteq> None)"
    by (simp add: text_group_def drum_slot_def js_def)
  from mp [OF conjunct1 [OF conjunct2 [OF conjunct2 [OF inst]]] c] obtain ss where
    hs: "loadGroup picky_browser (js ''X'') ?g = Inr (?g\<lparr>slots := ss\<rparr>) \<and> length ss = length (slots ?g)
           \<and> (\<forall>j < length (slots ?g).
                 change [slots ?g ! j] (group_characters picky_browser (js ''X'') (length (slots ?g)) ! j) True
                   = Inr [ss ! j])"
    ..
  have go: "map (map order \<circ> slots) [projr (loadGroup picky_browser (js ''X'') ?g)] = [[Some NumDrum]]"
    by code_simp
  have p3: "\<exists>ss. loadGroup picky_browser (js ''X'') ?g = Inr (text_group (js ''line'') ss)
          \<and> map order ss = [Some NumDrum]"
  proof (intro exI conjI)
    show "loadGroup picky_browser (js ''X'') ?g = Inr (text_group (js ''line'') ss)"
      using conjunct1 [OF hs] by (simp add: text_group_def)
    show "map order ss = [Some NumDrum]" using go conjunct1 [OF hs] by simp
  qed
  have d: "js ''status'' \<notin> set (gclass (image_group [?i])) \<and> has_image (image_group [?i])
        \<and> data_order (slots (image_group [?i])) = Some ImageDrum"
    by (simp add: image_group_def data_order_def drum_slot_def js_def)
  from mp [OF conjunct1 [OF conjunct2 [OF conjunct2 [OF conjunct2 [OF inst_image]]]] d]
  obtain ss' where
    hi: "loadGroup picky_browser (js ''X'') (image_group [?i]) = Inr ((image_group [?i])\<lparr>slots := ss'\<rparr>)
       \<and> change (slots (image_group [?i])) (js ''X'') False = Inr ss'"
    ..
  have p4: "\<exists>ss. loadGroup picky_browser (js ''X'') (image_group [?i]) = Inr (image_group ss)"
  proof
    show "loadGroup picky_browser (js ''X'') (image_group [?i]) = Inr (image_group ss')"
      using conjunct1 [OF hi] by (simp add: image_group_def)
  qed
  have f: "js ''status'' \<notin> set (gclass (image_group [])) \<and> has_image (image_group [])
        \<and> slots (image_group []) = []"
    by (simp add: image_group_def js_def)
  from mp [OF conjunct1 [OF conjunct2 [OF conjunct2 [OF conjunct2 [OF conjunct2 [OF inst_empty]]]]] f]
  have p5: "loadGroup picky_browser (js ''X'') (image_group []) = Inl TypeError" .
  have k: "js ''status'' \<in> set (gclass status_group)
        \<and> jq_find picky_browser (js ''.s'' @ js ''A'') \<noteq> None"
    by (simp add: status_group_def picky_browser_def js_def)
  from mp [OF conjunct1 [OF conjunct2 [OF conjunct2 [OF conjunct2 [OF conjunct2
              [OF conjunct2 [OF inst_A]]]]]] k]
  have p6: "\<exists>ls. loadGroup picky_browser (js ''A'') status_group = Inr (status_group\<lparr>lights := ls\<rparr>)" .
  have q: "js ''status'' \<in> set (gclass status_group)
        \<and> jq_find picky_browser (js ''.s'' @ js ''?'') = None"
    by (simp add: status_group_def picky_browser_def js_def)
  from mp [OF conjunct2 [OF conjunct2 [OF conjunct2 [OF conjunct2 [OF conjunct2
              [OF conjunct2 [OF inst_Q]]]]]] q]
  have p7: "loadGroup picky_browser (js ''?'') status_group = Inl SyntaxError" .
  from p1 p2 p2' p3 p4 p5 p6 p7 show ?thesis by (intro conjI)
qed

text \<open>
  Claim C10. When the field a group reads from the record is falsy (the number 0, the
  empty string, \<^verbatim>\<open>false\<close> or \<^verbatim>\<open>null\<close>), \<^verbatim>\<open>loadRow\<close> loads the group with the empty
  string, exactly as it does for a record without the field, and stores the empty string
  as its contents. A text or number group whose spans hold alphabets with the blank then
  renders all blank: every span is changed to the space, ends on the blank, and the last
  class it shows, if it shows any, is that of the blank; the string of the number 0,
  which is 0, is never loaded. The witness is a group showing 42 that is given a record
  whose field is the number 0.
\<close>

theorem loadRow_blanks_falsy_fields:
  assumes "get_prop data (js_at (gclass g) 1) = Some v"
      and "v = JNum 0 \<or> v = JStr [] \<or> v = JBool False \<or> v = JNull"
  shows "loadRow_group br data g =
           (case loadGroup br [] g of
              Inl err \<Rightarrow> Inl err
            | Inr g' \<Rightarrow> Inr (g'\<lparr>contents := Some (JStr [])\<rparr>))
       \<and> loadRow_group br data g = loadRow_group br Map.empty g
       \<and> (loadRow br data row = Inr row' \<and> j < length row \<and> row ! j = g \<longrightarrow>
            (\<exists>g'. loadGroup br [] g = Inr g' \<and> row' ! j = g'\<lparr>contents := Some (JStr [])\<rparr>))
       \<and> (js ''status'' \<notin> set (gclass g) \<and> \<not> has_image g
            \<and> (\<forall>e \<in> set (slots g). \<exists>vs. order e = Some vs \<and> blank \<in> set vs \<and> length vs < 2 ^ 31) \<longrightarrow>
            (\<exists>ss. loadRow_group br data g = Inr (g\<lparr>slots := ss, contents := Some (JStr [])\<rparr>)
               \<and> length ss = length (slots g)
               \<and> (\<forall>k < length (slots g).
                     change [slots g ! k] (js '' '') True = Inr [ss ! k]
                   \<and> on_blank (ss ! k)
                   \<and> (flips (ss ! k) = flips (slots g ! k) \<or> last (flips (ss ! k)) = js ''csp''))))
       \<and> group_characters br [] W = replicate W (js '' '')
       \<and> toString br (JNum 0) = Inr (js ''0'')"
proof -
  have fv: "field_value data g = JStr []"
    using assms by (auto simp: field_value_def truthy_def)
  have fe: "field_value Map.empty g = JStr []"
    by (simp add: field_value_def get_prop_def)
  have a: "loadRow_group br data g =
           (case loadGroup br [] g of
              Inl err \<Rightarrow> Inl err
            | Inr g' \<Rightarrow> Inr (g'\<lparr>contents := Some (JStr [])\<rparr>))"
    by (simp add: loadRow_group_field fv toString_def cong: sum.case_cong)
  have b: "loadRow_group br data g = loadRow_group br Map.empty g"
    by (simp add: loadRow_group_field fv fe cong: sum.case_cong)
  have c: "loadRow br data row = Inr row' \<and> j < length row \<and> row ! j = g \<longrightarrow>
            (\<exists>g'. loadGroup br [] g = Inr g' \<and> row' ! j = g'\<lparr>contents := Some (JStr [])\<rparr>)"
  proof
    assume h: "loadRow br data row = Inr row' \<and> j < length row \<and> row ! j = g"
    then have "list_all2 (\<lambda>x y. loadRow_group br data x = Inr y) row row'"
      by (simp add: loadRow_def each_Inr_iff)
    with h have "loadRow_group br data g = Inr (row' ! j)"
      by (auto simp: list_all2_conv_all_nth)
    with a show "\<exists>g'. loadGroup br [] g = Inr g' \<and> row' ! j = g'\<lparr>contents := Some (JStr [])\<rparr>"
      by (auto split: sum.splits)
  qed
  have d: "js ''status'' \<notin> set (gclass g) \<and> \<not> has_image g
            \<and> (\<forall>e \<in> set (slots g). \<exists>vs. order e = Some vs \<and> blank \<in> set vs \<and> length vs < 2 ^ 31) \<longrightarrow>
            (\<exists>ss. loadRow_group br data g = Inr (g\<lparr>slots := ss, contents := Some (JStr [])\<rparr>)
               \<and> length ss = length (slots g)
               \<and> (\<forall>k < length (slots g).
                     change [slots g ! k] (js '' '') True = Inr [ss ! k]
                   \<and> on_blank (ss ! k)
                   \<and> (flips (ss ! k) = flips (slots g ! k) \<or> last (flips (ss ! k)) = js ''csp'')))"
  proof
    assume h: "js ''status'' \<notin> set (gclass g) \<and> \<not> has_image g
            \<and> (\<forall>e \<in> set (slots g). \<exists>vs. order e = Some vs \<and> blank \<in> set vs \<and> length vs < 2 ^ 31)"
    note ns = conjunct1 [OF h] and ni = conjunct1 [OF conjunct2 [OF h]]
      and al = conjunct2 [OF conjunct2 [OF h]]
    from al have od: "\<forall>e \<in> set (slots g). order e \<noteq> None" by auto
    from loadGroup_text [OF ns ni od, of br "[]"] obtain ss where
      hs: "loadGroup br [] g = Inr (g\<lparr>slots := ss\<rparr>) \<and> length ss = length (slots g)
           \<and> (\<forall>j < length (slots g).
                 change [slots g ! j] (group_characters br [] (length (slots g)) ! j) True = Inr [ss ! j])"
      ..
    note ss = conjunct1 [OF hs] conjunct1 [OF conjunct2 [OF hs]] conjunct2 [OF conjunct2 [OF hs]]
    have each: "\<forall>k < length (slots g).
                     change [slots g ! k] (js '' '') True = Inr [ss ! k]
                   \<and> on_blank (ss ! k)
                   \<and> (flips (ss ! k) = flips (slots g ! k) \<or> last (flips (ss ! k)) = js ''csp'')"
    proof (intro allI impI)
      fix k assume k: "k < length (slots g)"
      with ss(3) have ch: "change [slots g ! k] (js '' '') True = Inr [ss ! k]"
        by (simp add: group_characters_empty)
      from k have "slots g ! k \<in> set (slots g)" by (rule nth_mem)
      with al obtain vs where vs: "order (slots g ! k) = Some vs" "blank \<in> set vs"
        "length vs < 2 ^ 31" by blast
      have dord: "data_order [slots g ! k] = Some vs" using vs(1) by (simp add: data_order_def)
      have t: "target_index vs (js '' '') = indexOf vs blank"
        using vs(2) target_index_found [of blank vs] by (simp add: blank_def)
      from change_reaches_blank [OF dord vs(2,3) t, of True] obtain shown where
        sh: "change [slots g ! k] (js '' '') True = Inr shown \<and> length shown = length [slots g ! k]
         \<and> (\<forall>j < length [slots g ! k].
               order (shown ! j) = Some (rotate_js vs (indexOf vs blank))
             \<and> rotate_js vs (indexOf vs blank) ! 0 = blank
             \<and> on_blank (shown ! j)
             \<and> (flips (shown ! j) = flips ([slots g ! k] ! j) \<or> last (flips (shown ! j)) = js ''csp''))"
        ..
      from conjunct1 [OF sh] ch have eq: "shown = [ss ! k]" by simp
      from conjunct2 [OF conjunct2 [OF sh]] have
        "on_blank (shown ! 0)
         \<and> (flips (shown ! 0) = flips ([slots g ! k] ! 0) \<or> last (flips (shown ! 0)) = js ''csp'')"
        by simp
      with eq ch show "change [slots g ! k] (js '' '') True = Inr [ss ! k]
                   \<and> on_blank (ss ! k)
                   \<and> (flips (ss ! k) = flips (slots g ! k) \<or> last (flips (ss ! k)) = js ''csp'')"
        by simp
    qed
    have lr: "loadRow_group br data g = Inr (g\<lparr>slots := ss, contents := Some (JStr [])\<rparr>)"
      using a ss(1) by simp
    from lr ss(2) each
    show "\<exists>ss. loadRow_group br data g = Inr (g\<lparr>slots := ss, contents := Some (JStr [])\<rparr>)
               \<and> length ss = length (slots g)
               \<and> (\<forall>k < length (slots g).
                     change [slots g ! k] (js '' '') True = Inr [ss ! k]
                   \<and> on_blank (ss ! k)
                   \<and> (flips (ss ! k) = flips (slots g ! k) \<or> last (flips (ss ! k)) = js ''csp''))"
      by (intro exI [of _ ss] conjI)
  qed
  have e: "toString br (JNum 0) = Inr (js ''0'')"
    by (simp add: toString_def js_def)
  have f: "group_characters br [] W = replicate W (js '' '')" by (rule group_characters_empty)
  from a b c d f e show ?thesis by (intro conjI)
qed

theorem loadRow_blanks_falsy_fields_witness:
  "get_prop (sample_item 0) (js_at (gclass (busy_row ! 0)) 1) = Some (JNum 0)
   \<and> map (\<lambda>e. hd (the (order e))) (slots (busy_row ! 0)) = [js ''4'', js ''2'']
   \<and> (\<exists>ss. loadRow_group picky_browser (sample_item 0) (busy_row ! 0)
             = Inr ((busy_row ! 0)\<lparr>slots := ss, contents := Some (JStr [])\<rparr>)
          \<and> map order ss = [Some NumDrum, Some NumDrum]
          \<and> map (\<lambda>e. last (flips e)) ss = [js ''csp'', js ''csp'']
          \<and> list_all on_blank ss)
   \<and> (\<exists>row' g'. loadRow picky_browser (sample_item 0) busy_row = Inr row'
          \<and> loadGroup picky_browser [] (busy_row ! 0) = Inr g'
          \<and> row' ! 0 = g'\<lparr>contents := Some (JStr [])\<rparr>)
   \<and> map (\<lambda>e. hd (the (order e)))
        (slots (projr (loadRow_group picky_browser [js ''scheduled'' \<mapsto> JStr (js ''0'')] (busy_row ! 0))))
       = [js ''0'', js '' '']"
proof -
  let ?g = "busy_row ! 0"
  have h1: "get_prop (sample_item 0) (js_at (gclass ?g) 1) = Some (JNum 0)"
    by (simp add: sample_item_def busy_row_def text_group_def get_prop_def js_at_def)
  have h2: "JNum 0 = JNum 0 \<or> JNum 0 = JStr [] \<or> JNum 0 = JBool False \<or> JNum 0 = JNull" by simp
  let ?row' = "projr (loadRow picky_browser (sample_item 0) busy_row)"
  note inst = loadRow_blanks_falsy_fields [OF h1 h2, of picky_browser busy_row ?row' 0 2]
  have "\<not> isl (loadRow picky_browser (sample_item 0) busy_row)" by code_simp
  then have lr: "loadRow picky_browser (sample_item 0) busy_row = Inr ?row'" by simp
  have h4: "loadRow picky_browser (sample_item 0) busy_row = Inr ?row' \<and> 0 < length busy_row
            \<and> busy_row ! 0 = busy_row ! 0"
    using lr by (simp add: busy_row_def)
  from mp [OF conjunct1 [OF conjunct2 [OF conjunct2 [OF inst]]] h4] obtain g' where
    g': "loadGroup picky_browser [] (busy_row ! 0) = Inr g'
         \<and> ?row' ! 0 = g'\<lparr>contents := Some (JStr [])\<rparr>"
    ..
  have q: "\<exists>row' g'. loadRow picky_browser (sample_item 0) busy_row = Inr row'
          \<and> loadGroup picky_browser [] (busy_row ! 0) = Inr g'
          \<and> row' ! 0 = g'\<lparr>contents := Some (JStr [])\<rparr>"
  proof (intro exI conjI)
    show "loadRow picky_browser (sample_item 0) busy_row = Inr ?row'" by (fact lr)
    show "loadGroup picky_browser [] (busy_row ! 0) = Inr g'" by (fact conjunct1 [OF g'])
    show "?row' ! 0 = g'\<lparr>contents := Some (JStr [])\<rparr>" by (fact conjunct2 [OF g'])
  qed
  have sl: "slots ?g = [drum_slot (js ''number'') (rotate 5 NumDrum),
                        drum_slot (js ''number'') (rotate 3 NumDrum)]"
    by (simp add: busy_row_def text_group_def)
  have h3: "js ''status'' \<notin> set (gclass ?g) \<and> \<not> has_image ?g
            \<and> (\<forall>e \<in> set (slots ?g). \<exists>vs. order e = Some vs \<and> blank \<in> set vs \<and> length vs < 2 ^ 31)"
    unfolding sl
    by (simp add: busy_row_def text_group_def drum_slot_def NumDrum_def blank_def js_def)
  from mp [OF conjunct1 [OF conjunct2 [OF conjunct2 [OF conjunct2 [OF inst]]]] h3]
  obtain ss where
    h: "loadRow_group picky_browser (sample_item 0) ?g
          = Inr (?g\<lparr>slots := ss, contents := Some (JStr [])\<rparr>)
        \<and> length ss = length (slots ?g)
        \<and> (\<forall>k < length (slots ?g).
              change [slots ?g ! k] (js '' '') True = Inr [ss ! k]
            \<and> on_blank (ss ! k)
            \<and> (flips (ss ! k) = flips (slots ?g ! k) \<or> last (flips (ss ! k)) = js ''csp''))"
    ..
  note ss = conjunct1 [OF h] conjunct1 [OF conjunct2 [OF h]] conjunct2 [OF conjunct2 [OF h]]
  have o: "map order (slots (projr (loadRow_group picky_browser (sample_item 0) ?g)))
             = [Some NumDrum, Some NumDrum]"
    by code_simp
  have l: "map (\<lambda>e. last (flips e)) (slots (projr (loadRow_group picky_browser (sample_item 0) ?g)))
             = [js ''csp'', js ''csp'']"
    by code_simp
  have len: "length ss = 2" using ss(2) sl by simp
  from ss(3) sl have "on_blank (ss ! 0)" "on_blank (ss ! 1)" by simp_all
  moreover from len obtain x y where "ss = [x, y]"
    by (cases ss, simp, rename_tac a as, case_tac as, simp_all)
  ultimately have ob: "list_all on_blank ss" by simp
  have before: "map (\<lambda>e. hd (the (order e))) (slots ?g) = [js ''4'', js ''2'']"
    by code_simp
  have zero: "map (\<lambda>e. hd (the (order e)))
        (slots (projr (loadRow_group picky_browser [js ''scheduled'' \<mapsto> JStr (js ''0'')] ?g)))
       = [js ''0'', js '' '']"
    by code_simp
  have p: "\<exists>ss. loadRow_group picky_browser (sample_item 0) ?g
             = Inr (?g\<lparr>slots := ss, contents := Some (JStr [])\<rparr>)
          \<and> map order ss = [Some NumDrum, Some NumDrum]
          \<and> map (\<lambda>e. last (flips e)) ss = [js ''csp'', js ''csp'']
          \<and> list_all on_blank ss"
  proof (intro exI conjI)
    show "loadRow_group picky_browser (sample_item 0) ?g
             = Inr (?g\<lparr>slots := ss, contents := Some (JStr [])\<rparr>)" by (fact ss(1))
    show "map order ss = [Some NumDrum, Some NumDrum]" using o ss(1) by simp
    show "map (\<lambda>e. last (flips e)) ss = [js ''csp'', js ''csp'']" using l ss(1) by simp
    show "list_all on_blank ss" by (fact ob)
  qed
  from h1 before p q zero show ?thesis by (intro conjI)
qed

section \<open>The pager\<close>

lemma paginate_closed:
  assumes "page < N"
  shows "paginate br results R (Num (int N)) (page * R) page scr =
     (case run_pages br (map (\<lambda>p. slice_js results (p * R) (p * R + R)) [page ..< N]) scr of
        Inl err \<Rightarrow> Some (Inl err)
      | Inr s \<Rightarrow> Some (Inr (fst s, snd s @ [Refresh])))"
  using assms
proof (induction "N - page" arbitrary: page scr)
  case 0
  then show ?case by simp
next
  case (Suc k)
  have up: "[page ..< N] = page # [Suc page ..< N]" using Suc.prems by (simp add: upt_conv_Cons)
  show ?case
  proof (cases "loadSequentially br (slice_js results (page * R) (page * R + R)) scr")
    case (Inl err)
    then show ?thesis by (subst paginate.simps) (simp add: up)
  next
    case (Inr scr')
    show ?thesis
    proof (cases "Suc page < N")
      case True
      have k: "k = N - Suc page" using Suc.hyps(2) by simp
      from Suc.hyps(1) [OF k True, of scr'] Inr True show ?thesis
        by (subst paginate.simps) (simp add: up add.commute)
    next
      case False
      with Suc.prems have "[Suc page ..< N] = []" by simp
      with Inr False show ?thesis by (subst paginate.simps) (simp add: up)
    qed
  qed
qed

lemma update_closed:
  assumes "0 < numRows opts"
      and "M = (case maxResults opts of None \<Rightarrow> numRows opts | Some m \<Rightarrow> if m \<noteq> 0 then m else numRows opts)"
      and "numPages = (min (length results) M + numRows opts - 1) div numRows opts"
  shows "update br opts results scr =
     (case run_pages br (map (\<lambda>p. slice_js results (p * numRows opts) (p * numRows opts + numRows opts))
                           [0 ..< max 1 numPages]) scr of
        Inl err \<Rightarrow> Some (Inl err)
      | Inr s \<Rightarrow> Some (Inr (fst s, snd s @ [Refresh])))"
proof -
  let ?R = "numRows opts"
  have nr: "(if length results \<le> M then length results else M) = min (length results) M"
    by (simp add: min_def)
  have cd: "ceil_div (min (length results) M) ?R = Num (int numPages)"
    using assms(1,3) by (simp add: ceil_div_def)
  have unfold: "update br opts results scr =
     (case loadSequentially br (slice_js results 0 (0 + ?R)) scr of
           Inl err \<Rightarrow> Some (Inl err)
         | Inr scr' \<Rightarrow>
             if 1 < numPages
             then paginate br results ?R (Num (int numPages)) ?R 1 scr'
             else Some (Inr (fst scr', snd scr' @ [Refresh])))"
    unfolding update_def Let_def assms(2) [symmetric] nr cd by (simp cong: sum.case_cong)
  show ?thesis
  proof (cases "1 < numPages")
    case True
    then have up: "[0 ..< max 1 numPages] = 0 # [1 ..< numPages]" by (simp add: upt_conv_Cons max_def)
    from paginate_closed [OF True, of br results ?R]
    have pg: "paginate br results ?R (Num (int numPages)) ?R (Suc 0) s =
     (case run_pages br (map (\<lambda>p. slice_js results (p * ?R) (p * ?R + ?R)) [Suc 0 ..< numPages]) s of
        Inl err \<Rightarrow> Some (Inl err)
      | Inr s \<Rightarrow> Some (Inr (fst s, snd s @ [Refresh])))" for s
      by simp
    show ?thesis unfolding unfold up using True
      by (simp add: pg split: sum.splits)
  next
    case False
    then have up: "[0 ..< max 1 numPages] = [0]" by (simp add: max_def)
    show ?thesis unfolding unfold up using False
      by (simp split: sum.splits)
  qed
qed

lemma run_pages_closed:
  assumes "\<forall>row \<in> set rows. \<forall>g \<in> set row. group_ready g" and "\<forall>sel. jq_find br sel \<noteq> None"
  shows "\<exists>rows'. run_pages br pages (rows, out)
                  = Inr (rows', out @ concat (map (\<lambda>p. map (pass_line p) [0 ..< max 1 (length rows)]
                                                         @ [BoardRendered]) pages))
           \<and> length rows' = length rows
           \<and> (\<forall>row \<in> set rows'. \<forall>g \<in> set row. group_ready g)"
  using assms(1)
proof (induction pages arbitrary: rows out)
  case Nil
  then show ?case by simp
next
  case (Cons p ps)
  from loadSequentially_closed [OF Cons.prems assms(2), of p out] obtain rows1 where
    h: "loadSequentially br p (rows, out)
                  = Inr (rows1, out @ map (pass_line p) [0 ..< max 1 (length rows)] @ [BoardRendered])
           \<and> length rows1 = length rows
           \<and> (\<forall>i < length rows. row_action br p i (rows ! i) = Inr (rows1 ! i))
           \<and> (\<forall>row \<in> set rows1. \<forall>g \<in> set row. group_ready g)"
    ..
  note r1 = conjunct1 [OF h] conjunct1 [OF conjunct2 [OF h]] conjunct2 [OF conjunct2 [OF conjunct2 [OF h]]]
  from Cons.IH [OF r1(3), of "out @ map (pass_line p) [0 ..< max 1 (length rows)] @ [BoardRendered]"]
  obtain rows' where
    h': "run_pages br ps (rows1, out @ map (pass_line p) [0 ..< max 1 (length rows)] @ [BoardRendered])
                  = Inr (rows', (out @ map (pass_line p) [0 ..< max 1 (length rows)] @ [BoardRendered])
                           @ concat (map (\<lambda>p. map (pass_line p) [0 ..< max 1 (length rows1)]
                                                         @ [BoardRendered]) ps))
           \<and> length rows' = length rows1
           \<and> (\<forall>row \<in> set rows'. \<forall>g \<in> set row. group_ready g)"
    ..
  show ?case
    using r1(1,2) h' by (intro exI [of _ rows']) simp
qed

lemma ceil_div_bounds:
  assumes "0 < (R::nat)"
  shows "a \<le> (a + R - 1) div R * R" and "(a + R - 1) div R * R < a + R"
proof -
  let ?N = "(a + R - 1) div R"
  have "?N * R + (a + R - 1) mod R = a + R - 1" by simp
  moreover have "(a + R - 1) mod R < R" using assms by simp
  ultimately show "a \<le> ?N * R" and "?N * R < a + R" using assms by linarith+
qed

text \<open>
  Claim C4. With a positive number of rows, \<^verbatim>\<open>update\<close> computes
  \<open>numResults = min (length results) maxResults\<close> and \<open>numPages\<close>, the least number of
  pages of \<open>numRows\<close> records that hold \<open>numResults\<close> records (the ceiling of the
  quotient), and one cycle is: the pages \<open>p = 0, 1, ...\<close> below \<open>numPages\<close> (page 0 in
  any case), each the slice of the record list from \<open>p * numRows\<close> to
  \<open>(p + 1) * numRows\<close>, loaded one after the other by the sequencer, and then the
  refresh. Three records with \<open>numRows = 2\<close> and \<open>maxResults = 3\<close> give two pages,
  the first two records and then the third; in the witness the second pass writes the
  line of the empty row 2 and leaves it blank.
\<close>

theorem update_pages:
  assumes "0 < numRows opts"
      and "M = (case maxResults opts of None \<Rightarrow> numRows opts
                | Some m \<Rightarrow> if m \<noteq> 0 then m else numRows opts)"
      and "numResults = min (length results) M"
      and "numPages = (numResults + numRows opts - 1) div numRows opts"
  shows "update br opts results scr =
           (case run_pages br (map (\<lambda>p. slice_js results (p * numRows opts) ((p + 1) * numRows opts))
                                 [0 ..< max 1 numPages]) scr of
              Inl err \<Rightarrow> Some (Inl err)
            | Inr scr' \<Rightarrow> Some (Inr (fst scr', snd scr' @ [Refresh])))
       \<and> numResults \<le> numPages * numRows opts
       \<and> numPages * numRows opts < numResults + numRows opts
       \<and> (length results = 3 \<and> numRows opts = 2 \<and> M = 3 \<longrightarrow>
            numPages = 2
          \<and> map (\<lambda>p. slice_js results (p * numRows opts) ((p + 1) * numRows opts))
                [0 ..< max 1 numPages] = [take 2 results, drop 2 results])"
proof (intro conjI impI)
  have "(\<lambda>p. slice_js results (p * numRows opts) ((p + 1) * numRows opts))
      = (\<lambda>p. slice_js results (p * numRows opts) (p * numRows opts + numRows opts))"
    by (rule ext) (simp add: add.commute)
  then show "update br opts results scr =
           (case run_pages br (map (\<lambda>p. slice_js results (p * numRows opts) ((p + 1) * numRows opts))
                                 [0 ..< max 1 numPages]) scr of
              Inl err \<Rightarrow> Some (Inl err)
            | Inr scr' \<Rightarrow> Some (Inr (fst scr', snd scr' @ [Refresh])))"
    using update_closed [OF assms(1,2), of numPages results br scr] assms(3,4) by simp
  show "numResults \<le> numPages * numRows opts"
    using ceil_div_bounds(1) [OF assms(1), of numResults] assms(4) by simp
  show "numPages * numRows opts < numResults + numRows opts"
    using ceil_div_bounds(2) [OF assms(1), of numResults] assms(4) by simp
next
  assume a: "length results = 3 \<and> numRows opts = 2 \<and> M = 3"
  then show n: "numPages = 2" using assms(3,4) by simp
  have "[0 ..< max 1 numPages] = [0, 1]" using n by (simp add: upt_rec)
  moreover have "length results \<le> 4" using a by simp
  ultimately show "map (\<lambda>p. slice_js results (p * numRows opts) ((p + 1) * numRows opts))
                [0 ..< max 1 numPages] = [take 2 results, drop 2 results]"
    using a by (simp add: slice_js_def)
qed

lemma busy_board_ready: "\<forall>row \<in> set (replicate n busy_row). \<forall>g \<in> set row. group_ready g"
  using busy_row_ready by simp

theorem update_pages_witness:
  "\<exists>rows'. update plain_browser sample_options [sample_item 0, sample_item 5, sample_item 12]
              (replicate 2 busy_row, [])
            = Some (Inr (rows', [LogRow 1 (sample_item 0), LogRow 2 (sample_item 5), BoardRendered,
                                 LogRow 1 (sample_item 12), LogEmpty 2, BoardRendered, Refresh]))
      \<and> map (map (map order \<circ> slots)) rows'
          = [[[Some (rotate 2 NumDrum), Some (rotate 3 NumDrum)]], [[Some NumDrum, Some NumDrum]]]"
proof -
  let ?results = "[sample_item 0, sample_item 5, sample_item 12]"
  let ?pages = "[[sample_item 0, sample_item 5], [sample_item 12]]"
  have h1: "0 < numRows sample_options" by (simp add: sample_options_def)
  have h2: "3 = (case maxResults sample_options of None \<Rightarrow> numRows sample_options
                | Some m \<Rightarrow> if m \<noteq> 0 then m else numRows sample_options)"
    by (simp add: sample_options_def)
  have h3: "3 = min (length ?results) 3" by simp
  have h4: "2 = (3 + numRows sample_options - 1) div numRows sample_options"
    by (simp add: sample_options_def)
  have pg: "map (\<lambda>p. slice_js ?results (p * numRows sample_options) ((p + 1) * numRows sample_options))
                [0 ..< max 1 2] = ?pages"
    by (simp add: sample_options_def slice_js_def upt_rec)
  from update_pages [OF h1 h2 h3 h4, of plain_browser "(replicate 2 busy_row, [])"]
  have u: "update plain_browser sample_options ?results (replicate 2 busy_row, []) =
           (case run_pages plain_browser ?pages (replicate 2 busy_row, []) of
              Inl err \<Rightarrow> Some (Inl err)
            | Inr scr' \<Rightarrow> Some (Inr (fst scr', snd scr' @ [Refresh])))"
    unfolding pg by (rule conjunct1)
  from run_pages_closed [OF busy_board_ready [of 2] plain_browser_finds, of ?pages "[]"]
  obtain rows' where
    h: "run_pages plain_browser ?pages (replicate 2 busy_row, [])
                  = Inr (rows', [] @ concat (map (\<lambda>p. map (pass_line p) [0 ..< max 1 (length (replicate 2 busy_row))]
                                                         @ [BoardRendered]) ?pages))
           \<and> length rows' = length (replicate 2 busy_row)
           \<and> (\<forall>row \<in> set rows'. \<forall>g \<in> set row. group_ready g)"
    ..
  have tr: "concat (map (\<lambda>p. map (pass_line p) [0 ..< max 1 (length (replicate 2 busy_row))]
                                                         @ [BoardRendered]) ?pages)
       = [LogRow 1 (sample_item 0), LogRow 2 (sample_item 5), BoardRendered,
                                 LogRow 1 (sample_item 12), LogEmpty 2, BoardRendered]"
    by (simp add: pass_line_def upt_rec)
  have rp: "run_pages plain_browser ?pages (replicate 2 busy_row, [])
              = Inr (rows', [LogRow 1 (sample_item 0), LogRow 2 (sample_item 5), BoardRendered,
                                 LogRow 1 (sample_item 12), LogEmpty 2, BoardRendered])"
    using conjunct1 [OF h] tr by simp
  have "map (map (map order \<circ> slots)) (fst (projr (run_pages plain_browser ?pages (replicate 2 busy_row, []))))
          = [[[Some (rotate 2 NumDrum), Some (rotate 3 NumDrum)]], [[Some NumDrum, Some NumDrum]]]"
    by code_simp
  with rp have o: "map (map (map order \<circ> slots)) rows'
          = [[[Some (rotate 2 NumDrum), Some (rotate 3 NumDrum)]], [[Some NumDrum, Some NumDrum]]]"
    by simp
  show ?thesis
  proof (intro exI conjI)
    show "update plain_browser sample_options ?results (replicate 2 busy_row, [])
            = Some (Inr (rows', [LogRow 1 (sample_item 0), LogRow 2 (sample_item 5), BoardRendered,
                                 LogRow 1 (sample_item 12), LogEmpty 2, BoardRendered, Refresh]))"
      using u rp by simp
    show "map (map (map order \<circ> slots)) rows'
          = [[[Some (rotate 2 NumDrum), Some (rotate 3 NumDrum)]], [[Some NumDrum, Some NumDrum]]]"
      by (fact o)
  qed
qed

text \<open>
  Claim C2 fails on the code. With five records, \<open>numRows = 2\<close> and
  \<open>maxResults = 3\<close> the pager computes \<open>numResults = 3\<close> and two pages, but it cuts the
  pages from the whole list: the second page is records 2 and 3, so the record at
  index 3, beyond \<open>maxResults\<close>, is loaded into row 2 and four records are shown in the
  cycle.
\<close>

theorem update_loads_beyond_maxResults:
  "\<exists>rows'. update plain_browser sample_options
              [sample_item 0, sample_item 5, sample_item 12, sample_item 20, sample_item 30]
              (replicate 2 busy_row, [])
            = Some (Inr (rows', [LogRow 1 (sample_item 0), LogRow 2 (sample_item 5), BoardRendered,
                                 LogRow 1 (sample_item 12), LogRow 2 (sample_item 20), BoardRendered,
                                 Refresh]))
      \<and> map (map (map order \<circ> slots)) rows'
          = [[[Some (rotate 2 NumDrum), Some (rotate 3 NumDrum)]],
             [[Some (rotate 3 NumDrum), Some (rotate 1 NumDrum)]]]"
proof -
  let ?results = "[sample_item 0, sample_item 5, sample_item 12, sample_item 20, sample_item 30]"
  let ?pages = "[[sample_item 0, sample_item 5], [sample_item 12, sample_item 20]]"
  have h1: "0 < numRows sample_options" by (simp add: sample_options_def)
  have h2: "3 = (case maxResults sample_options of None \<Rightarrow> numRows sample_options
                | Some m \<Rightarrow> if m \<noteq> 0 then m else numRows sample_options)"
    by (simp add: sample_options_def)
  have h3: "2 = (min (length ?results) 3 + numRows sample_options - 1) div numRows sample_options"
    by (simp add: sample_options_def)
  have pg: "map (\<lambda>p. slice_js ?results (p * numRows sample_options)
                            (p * numRows sample_options + numRows sample_options))
                [0 ..< max 1 2] = ?pages"
    by (simp add: sample_options_def slice_js_def upt_rec)
  from update_closed [OF h1 h2 h3, of plain_browser "(replicate 2 busy_row, [])"]
  have u: "update plain_browser sample_options ?results (replicate 2 busy_row, []) =
           (case run_pages plain_browser ?pages (replicate 2 busy_row, []) of
              Inl err \<Rightarrow> Some (Inl err)
            | Inr scr' \<Rightarrow> Some (Inr (fst scr', snd scr' @ [Refresh])))"
    unfolding pg .
  from run_pages_closed [OF busy_board_ready [of 2] plain_browser_finds, of ?pages "[]"]
  obtain rows' where
    h: "run_pages plain_browser ?pages (replicate 2 busy_row, [])
                  = Inr (rows', [] @ concat (map (\<lambda>p. map (pass_line p) [0 ..< max 1 (length (replicate 2 busy_row))]
                                                         @ [BoardRendered]) ?pages))
           \<and> length rows' = length (replicate 2 busy_row)
           \<and> (\<forall>row \<in> set rows'. \<forall>g \<in> set row. group_ready g)"
    ..
  have tr: "concat (map (\<lambda>p. map (pass_line p) [0 ..< max 1 (length (replicate 2 busy_row))]
                                                         @ [BoardRendered]) ?pages)
       = [LogRow 1 (sample_item 0), LogRow 2 (sample_item 5), BoardRendered,
                                 LogRow 1 (sample_item 12), LogRow 2 (sample_item 20), BoardRendered]"
    by (simp add: pass_line_def upt_rec)
  have rp: "run_pages plain_browser ?pages (replicate 2 busy_row, [])
              = Inr (rows', [LogRow 1 (sample_item 0), LogRow 2 (sample_item 5), BoardRendered,
                                 LogRow 1 (sample_item 12), LogRow 2 (sample_item 20), BoardRendered])"
    using conjunct1 [OF h] tr by simp
  have "map (map (map order \<circ> slots)) (fst (projr (run_pages plain_browser ?pages (replicate 2 busy_row, []))))
          = [[[Some (rotate 2 NumDrum), Some (rotate 3 NumDrum)]],
             [[Some (rotate 3 NumDrum), Some (rotate 1 NumDrum)]]]"
    by code_simp
  with rp have o: "map (map (map order \<circ> slots)) rows'
          = [[[Some (rotate 2 NumDrum), Some (rotate 3 NumDrum)]],
             [[Some (rotate 3 NumDrum), Some (rotate 1 NumDrum)]]]"
    by simp
  show ?thesis
  proof (intro exI conjI)
    show "update plain_browser sample_options ?results (replicate 2 busy_row, [])
            = Some (Inr (rows', [LogRow 1 (sample_item 0), LogRow 2 (sample_item 5), BoardRendered,
                                 LogRow 1 (sample_item 12), LogRow 2 (sample_item 20), BoardRendered,
                                 Refresh]))"
      using u rp by simp
    show "map (map (map order \<circ> slots)) rows'
          = [[[Some (rotate 2 NumDrum), Some (rotate 3 NumDrum)]],
             [[Some (rotate 3 NumDrum), Some (rotate 1 NumDrum)]]]"
      by (fact o)
  qed
qed

section \<open>The data source\<close>

lemma positive_compare:
  "positive (compare_arrivals a b) \<longleftrightarrow> \<not> time_le (arrival_time a) (arrival_time b)"
  by (cases "arrival_time a"; cases "arrival_time b")
     (auto simp: compare_arrivals_def number_or_infinity_def positive_def time_le_def)

lemma time_le_total: "time_le u v \<or> time_le v u"
  by (cases u; cases v) (auto simp: time_le_def)

lemma time_le_trans: "time_le u v \<Longrightarrow> time_le v w \<Longrightarrow> time_le u w"
  by (cases u; cases v; cases w) (auto simp: time_le_def)

lemma set_sort_insert: "set (sort_insert cmp x ys) = insert x (set ys)"
  by (induction ys) auto

lemma sorted_sort_insert:
  assumes "sorted_wrt (\<lambda>a b. time_le (arrival_time a) (arrival_time b)) ys"
  shows "sorted_wrt (\<lambda>a b. time_le (arrival_time a) (arrival_time b))
           (sort_insert compare_arrivals x ys)"
  using assms
proof (induction ys)
  case Nil
  then show ?case by simp
next
  case (Cons y ys)
  show ?case
  proof (cases "positive (compare_arrivals x y)")
    case True
    then have yx: "time_le (arrival_time y) (arrival_time x)"
      using positive_compare [of x y] time_le_total [of "arrival_time x" "arrival_time y"] by simp
    with True Cons show ?thesis by (auto simp: set_sort_insert)
  next
    case False
    then have xy: "time_le (arrival_time x) (arrival_time y)" by (simp add: positive_compare)
    with False Cons.prems show ?thesis by (auto intro: time_le_trans)
  qed
qed

lemma sorted_sort_js:
  "sorted_wrt (\<lambda>a b. time_le (arrival_time a) (arrival_time b)) (sort_js compare_arrivals xs)"
  unfolding sort_js_def by (induction xs) (simp_all add: sorted_sort_insert)

lemma set_sort_js: "set (sort_js cmp xs) = set xs"
  unfolding sort_js_def by (induction xs) (simp_all add: set_sort_insert)

lemma stop_times_loop_values:
  "\<forall>a \<in> set (stop_times_loop now_ms stop_id sts). minutes_value (arrival_time a)"
  by (induction sts) (auto simp: minutes_value_def Let_def split: option.splits)

lemma get_stop_times_values:
  "\<forall>a \<in> set (get_stop_times now_ms station response). minutes_value (arrival_time a)"
  using stop_times_loop_values by (auto simp: get_stop_times_def split: option.splits)

lemma fetchAndWrite_values:
  "\<forall>a \<in> set (fetchAndWrite station f). minutes_value (arrival_time a)"
  using get_stop_times_values
  by (auto simp: fetchAndWrite_def Let_def set_sort_js)

lemma fetchAndWrite_sorted:
  "sorted_wrt (\<lambda>a b. time_le (arrival_time a) (arrival_time b)) (fetchAndWrite station f)"
  by (simp add: fetchAndWrite_def Let_def sorted_sort_js)

lemma stored_cases: "stored runs = [] \<or> (\<exists>station f. stored runs = fetchAndWrite station f)"
proof (cases runs rule: rev_cases)
  case Nil
  then show ?thesis by (simp add: stored_def)
next
  case (snoc rs r)
  then show ?thesis by (cases r) (auto simp: stored_def)
qed

lemma stored_sorted:
  "sorted_wrt (\<lambda>a b. time_le (arrival_time a) (arrival_time b)) (stored runs)"
  using stored_cases [of runs] fetchAndWrite_sorted by auto

lemma stored_values: "\<forall>a \<in> set (stored runs). minutes_value (arrival_time a)"
  using stored_cases [of runs] fetchAndWrite_values by auto

text \<open>
  What the code does guarantee of the list that \<^verbatim>\<open>/api/arrivals\<close> serves, whatever runs
  of \<^verbatim>\<open>fetchAndWrite\<close> came before: it is in the order of the comparator, in which a
  numeric \<open>scheduled\<close> counts as itself and any other as infinity, so the numeric entries
  ascend and the zero markers follow them; every \<open>scheduled\<close> is a positive number of
  minutes or the zero marker; and at most 45 records are served.
\<close>

lemma arrivals_in_comparator_order:
  "sorted_wrt (\<lambda>a b. time_le (scheduled a) (scheduled b)) (api_arrivals (stored runs))
   \<and> (\<forall>d \<in> set (api_arrivals (stored runs)). minutes_value (scheduled d))
   \<and> length (api_arrivals (stored runs)) \<le> 45"
proof (intro conjI)
  have "sorted_wrt (\<lambda>a b. time_le (arrival_time a) (arrival_time b))
          (take (min 45 (length (stored runs))) (stored runs))"
    using stored_sorted [of runs] by (rule sorted_wrt_take)
  then show "sorted_wrt (\<lambda>a b. time_le (scheduled a) (scheduled b)) (api_arrivals (stored runs))"
    by (simp add: api_arrivals_def sorted_wrt_map)
  show "\<forall>d \<in> set (api_arrivals (stored runs)). minutes_value (scheduled d)"
    using stored_values [of runs] by (auto simp: api_arrivals_def dest: in_set_takeD)
  show "length (api_arrivals (stored runs)) \<le> 45" by (simp add: api_arrivals_def)
qed

text \<open>
  Claim C9 does not hold of the code. \<^verbatim>\<open>get_stop_times\<close> writes the arrival that is due
  now as the string \<^verbatim>\<open>'0'\<close>, and the comparator of \<^verbatim>\<open>fetchAndWrite\<close> counts every value
  that is not a number as \<^verbatim>\<open>Number.POSITIVE_INFINITY\<close>: a train leaving in 30 seconds is
  served after the train leaving in 330, so the list is not in ascending order of the
  minutes. Behind 45 later trains the train that is due now is stored last, as entry 46,
  and not served at all.
\<close>

theorem arrivals_zero_marker_sorted_last:
  "map scheduled (api_arrivals (stored sample_runs)) = [JNum 5, JStr (js ''0'')]
   \<and> \<not> sorted (map (\<lambda>d. minutes_claimed (scheduled d)) (api_arrivals (stored sample_runs)))
   \<and> map arrival_time (stored crowded_runs) = replicate 45 (JNum 5) @ [JStr (js ''0'')]
   \<and> map scheduled (api_arrivals (stored crowded_runs)) = replicate 45 (JNum 5)"
proof (intro conjI)
  show s: "map scheduled (api_arrivals (stored sample_runs)) = [JNum 5, JStr (js ''0'')]"
    by code_simp
  have "map (\<lambda>d. minutes_claimed (scheduled d)) (api_arrivals (stored sample_runs))
          = map minutes_claimed (map scheduled (api_arrivals (stored sample_runs)))"
    by (simp add: o_def)
  then show "\<not> sorted (map (\<lambda>d. minutes_claimed (scheduled d)) (api_arrivals (stored sample_runs)))"
    unfolding s by (simp add: minutes_claimed_def)
  show "map arrival_time (stored crowded_runs) = replicate 45 (JNum 5) @ [JStr (js ''0'')]"
    by code_simp
  show "map scheduled (api_arrivals (stored crowded_runs)) = replicate 45 (JNum 5)"
    by code_simp
qed

section \<open>Boards as \<^verbatim>\<open>initRow\<close> builds them, and the pager that never refreshes\<close>

text \<open>
  \<^verbatim>\<open>initRow\<close> leaves every span in order and on the blank, so a rendered board is ready
  as soon as every image group of the template has a span.
\<close>

lemma drums_fit: "drum_fit NumDrum" "drum_fit CharDrum" "drum_fit ImageDrum" "drum_fit FullDrum"
  by (simp_all add: drum_fit_def NumDrum_def CharDrum_def ImageDrum_def FullDrum_def blank_def js_def)

lemma initSpan_ready:
  "\<exists>e. initSpan span = Inr [e] \<and> slot_ok e \<and> rest_slot e \<and> flips e = flips span"
proof -
  let ?drum = "if div_class span = js ''number'' then NumDrum
                  else if div_class span = js ''character'' then CharDrum
                  else if div_class span = js ''image'' then ImageDrum
                  else FullDrum"
  let ?e = "span\<lparr>order := Some ?drum\<rparr>"
  have fit: "drum_fit ?drum" using drums_fit by simp
  then have ok: "slot_ok ?e" by (simp add: slot_ok_def)
  have o: "order ?e = Some ?drum" by simp
  have ti: "target_index ?drum (js '' '') = 0 \<or> target_index ?drum (js '' '') = - 1"
    by (simp add: target_index_def indexOf_def NumDrum_def CharDrum_def ImageDrum_def
        FullDrum_def blank_def js_def)
  then have fl: "flips (turned ?e (js '' '') False) = flips span"
    by (auto simp: turned_def set_turned_def)
  have "initSpan span = Inr [turned ?e (js '' '') False]"
    unfolding initSpan_def Let_def using change_turned [OF o, of "js '' ''" False] by simp
  moreover have "slot_ok (turned ?e (js '' '') False)" using ok by (rule slot_ok_turned)
  moreover have "rest_slot (turned ?e (js '' '') False)"
    using rest_slot_turned [OF ok, of False] by (simp add: blank_def)
  ultimately show ?thesis using fl by blast
qed

lemma init_spans_ready:
  "\<exists>ss. init_spans spans = Inr ss \<and> length ss = length spans \<and> (\<forall>e \<in> set ss. slot_ok e \<and> rest_slot e)"
proof (induction spans)
  case Nil
  then show ?case by simp
next
  case (Cons span spans)
  from initSpan_ready [of span] obtain e where e: "initSpan span = Inr [e]" "slot_ok e" "rest_slot e"
    by blast
  from Cons obtain ss where ss: "init_spans spans = Inr ss" "length ss = length spans"
    "\<forall>e \<in> set ss. slot_ok e \<and> rest_slot e" by blast
  from e ss show ?case by (intro exI [of _ "e # ss"]) simp
qed

lemma initRow_ready:
  assumes "\<forall>g \<in> set row. has_image g \<longrightarrow> slots g \<noteq> []"
  shows "\<exists>row'. initRow row = Inr row' \<and> length row' = length row
           \<and> (\<forall>g \<in> set row'. group_ready g \<and> (\<forall>e \<in> set (slots g). rest_slot e))"
proof -
  have step: "\<exists>g'. (case init_spans (slots g) of Inl err \<Rightarrow> Inl err | Inr ss \<Rightarrow> Inr (g\<lparr>slots := ss\<rparr>)) = Inr g'
                \<and> (group_ready g' \<and> (\<forall>e \<in> set (slots g'). rest_slot e))"
    if g: "has_image g \<longrightarrow> slots g \<noteq> []" for g
  proof -
    from init_spans_ready [of "slots g"] obtain ss where ss: "init_spans (slots g) = Inr ss"
      "length ss = length (slots g)" "\<forall>e \<in> set ss. slot_ok e \<and> rest_slot e" by blast
    from ss(2) g have "has_image g \<longrightarrow> ss \<noteq> []" by auto
    with ss show ?thesis by (simp add: group_ready_def)
  qed
  show ?thesis unfolding initRow_def
    using each_invariant [of row "\<lambda>g. has_image g \<longrightarrow> slots g \<noteq> []"
        "\<lambda>g. case init_spans (slots g) of Inl err \<Rightarrow> Inl err | Inr ss \<Rightarrow> Inr (g\<lparr>slots := ss\<rparr>)"
        "\<lambda>g. group_ready g \<and> (\<forall>e \<in> set (slots g). rest_slot e)"] step assms
    by blast
qed

lemma render_ready:
  assumes "\<forall>g \<in> set template. has_image g \<longrightarrow> slots g \<noteq> []"
  shows "\<exists>rows. render n template = Inr rows \<and> length rows = n
           \<and> (\<forall>row \<in> set rows. \<forall>g \<in> set row. group_ready g)"
proof -
  have "\<exists>row'. initRow row = Inr row' \<and> (\<forall>g \<in> set row'. group_ready g)"
    if "\<forall>g \<in> set row. has_image g \<longrightarrow> slots g \<noteq> []" for row
    using initRow_ready [OF that] by blast
  from each_invariant [of "replicate n template" "\<lambda>row. \<forall>g \<in> set row. has_image g \<longrightarrow> slots g \<noteq> []"
      initRow "\<lambda>row. \<forall>g \<in> set row. group_ready g", OF _ this] assms
  show ?thesis by (simp add: render_def)
qed

text \<open>
  With an infinite number of pages (\<open>numRows = 0\<close> and a record to show) \<^verbatim>\<open>paginate\<close>
  never reaches the refresh: if it ends at all, it ends in an exception.
\<close>

lemma paginate_for_ever:
  assumes "paginate br results R PosInf i page scr = Some r"
  shows "isl r"
proof -
  have "numPages = PosInf \<longrightarrow> isl r"
    if "paginate br results R numPages i page scr = Some r" for numPages
  proof (rule paginate.raw_induct
      [where P = "\<lambda>br results R numPages i page scr r. numPages = PosInf \<longrightarrow> isl r"], goal_cases)
    case (1 pg br results rows_n numPages i page scr y)
    from 1(2) 1(1) show ?case
      by (cases "loadSequentially br (slice_js results i (i + rows_n)) scr")
         (auto split: if_splits)
  qed (rule that)
  with assms show ?thesis by simp
qed

end
